theory Spec2Isabelle
  imports Complex_Main
begin

section \<open>Object stores\<close>

text \<open>
  The application keeps its data in IndexedDB object stores whose primary key is the
  \<^verbatim>\<open>id\<close> property, generated by the store (\<^verbatim>\<open>keyPath: 'id', autoIncrement: true\<close>).
  A store is modelled by its records in ascending key order, which is the order in which
  \<^verbatim>\<open>getAll()\<close> returns them, together with the current number of the key generator.
  Timestamps are the ISO strings of \<^verbatim>\<open>new Date().toISOString()\<close>; they are modelled by the
  instant they denote, in milliseconds, and the clock is an argument of every operation
  that reads it. JavaScript numbers are modelled by exact rationals (prices, percentages)
  or integers (stock counts, quantities): rounding of floating point values is outside
  this model.
\<close>

type_synonym timestamp = int

record 'a store =
  recs :: "(nat \<times> 'a) list"
  nextKey :: nat

definition empty_store :: "'a store" where
  "empty_store = \<lparr>recs = [], nextKey = 1\<rparr>"

fun upsert :: "nat \<Rightarrow> 'a \<Rightarrow> (nat \<times> 'a) list \<Rightarrow> (nat \<times> 'a) list" where
  "upsert k v [] = [(k, v)]"
| "upsert k v ((k', v') # xs) =
     (if k < k' then (k, v) # (k', v') # xs
      else if k = k' then (k, v) # xs
      else (k', v') # upsert k v xs)"

definition getFromDB :: "'a store \<Rightarrow> nat \<Rightarrow> 'a option" where
  "getFromDB st k = map_of (recs st) k"

definition getAllFromDB :: "'a store \<Rightarrow> 'a list" where
  "getAllFromDB st = map snd (recs st)"

text \<open>
  \<^verbatim>\<open>put\<close> of an object that carries its key replaces the record stored under that key, or
  inserts it; the key generator is moved past an explicit key that is not below it.
\<close>

definition putAt :: "nat \<Rightarrow> 'a \<Rightarrow> 'a store \<Rightarrow> 'a store" where
  "putAt k v st = \<lparr>recs = upsert k v (recs st), nextKey = max (nextKey st) (k + 1)\<rparr>"

text \<open>
  \<^verbatim>\<open>put\<close> or \<^verbatim>\<open>add\<close> of an object without an \<^verbatim>\<open>id\<close>: the store takes the next generated
  key, writes it into the object and returns it. The object is given as a function of the
  key it will receive.
\<close>

definition putNew :: "(nat \<Rightarrow> 'a) \<Rightarrow> 'a store \<Rightarrow> nat \<times> 'a store" where
  "putNew mk st = (nextKey st, putAt (nextKey st) (mk (nextKey st)) st)"

definition deleteFromDB :: "nat \<Rightarrow> 'a store \<Rightarrow> 'a store" where
  "deleteFromDB k st = st\<lparr>recs := filter (\<lambda>kv. fst kv \<noteq> k) (recs st)\<rparr>"

text \<open>
  A store is well formed when its keys are strictly ascending, every record carries its
  own key and the key generator is above every key. Every operation above keeps this.
\<close>

definition wf_store :: "('a \<Rightarrow> nat) \<Rightarrow> 'a store \<Rightarrow> bool" where
  "wf_store idf st =
     (sorted_wrt (<) (map fst (recs st)) \<and>
      list_all (\<lambda>kv. idf (snd kv) = fst kv \<and> fst kv < nextKey st) (recs st))"

text \<open>A JavaScript \<^verbatim>\<open>Map\<close> built from a list of entries: a later entry replaces an earlier
  one with the same key.\<close>

definition Map_new :: "('k \<times> 'v) list \<Rightarrow> ('k \<rightharpoonup> 'v)" where
  "Map_new kvs = foldl (\<lambda>m kv. m(fst kv \<mapsto> snd kv)) Map.empty kvs"

section \<open>Fees and the cart\<close>

record fee =
  fid :: nat
  fname :: string
  ftype :: string
  fvalue :: rat
  isDefault :: bool
  isTax :: bool
  fcreatedAt :: timestamp

text \<open>A line item of the cart, as \<^verbatim>\<open>addToCart\<close> builds it.\<close>

record cart_item =
  iid :: nat
  iname :: string
  iprice :: rat
  effectivePrice :: rat
  idiscountPercentage :: rat
  quantity :: int
  istock :: int

record cart =
  items :: "cart_item list"
  fees :: "fee list"

subsection \<open>reconcileCartFees\<close>

text \<open>
  The first loop keeps each fee of the cart that the store still has, in its stored
  version; the second appends each default fee of the store whose id was not added yet.
  Both loops thread the list \<^verbatim>\<open>reconciledFees\<close> and the set \<^verbatim>\<open>addedFeeIds\<close>.
\<close>

definition keepCartFee :: "(nat \<rightharpoonup> fee) \<Rightarrow> fee list \<times> nat set \<Rightarrow> fee \<Rightarrow> fee list \<times> nat set" where
  "keepCartFee allFeesMap acc cartFee =
     (case allFeesMap (fid cartFee) of
        Some f \<Rightarrow> (fst acc @ [f], insert (fid cartFee) (snd acc))
      | None \<Rightarrow> acc)"

definition addDefaultFee :: "fee list \<times> nat set \<Rightarrow> fee \<Rightarrow> fee list \<times> nat set" where
  "addDefaultFee acc dbFee =
     (if isDefault dbFee \<and> fid dbFee \<notin> snd acc
      then (fst acc @ [dbFee], insert (fid dbFee) (snd acc))
      else acc)"

definition reconcileCartFees :: "fee store \<Rightarrow> cart \<Rightarrow> cart" where
  "reconcileCartFees feeStore c =
     (let allFees = getAllFromDB feeStore;
          allFeesMap = Map_new (map (\<lambda>f. (fid f, f)) allFees);
          kept = foldl (keepCartFee allFeesMap) ([], {}) (fees c);
          reconciled = foldl addDefaultFee kept allFees
      in c\<lparr>fees := fst reconciled\<rparr>)"

definition applyDefaultFees :: "fee store \<Rightarrow> cart \<Rightarrow> cart" where
  "applyDefaultFees feeStore c = c\<lparr>fees := filter isDefault (getAllFromDB feeStore)\<rparr>"

definition applySelectedFees :: "fee store \<Rightarrow> nat list \<Rightarrow> cart \<Rightarrow> cart" where
  "applySelectedFees feeStore selectedFeeIds c =
     c\<lparr>fees := filter (\<lambda>f. fid f \<in> set selectedFeeIds) (getAllFromDB feeStore)\<rparr>"

section \<open>Products, transactions and the application state\<close>

text \<open>
  A stored product, with the properties \<^verbatim>\<open>addProduct\<close> writes. A missing
  \<^verbatim>\<open>discountPercentage\<close> behaves like 0 in every expression below
  (\<^verbatim>\<open>p.discountPercentage && p.discountPercentage > 0\<close>, \<^verbatim>\<open>p.discountPercentage || 0\<close>).
\<close>

record product =
  pid :: nat
  pname :: string
  price :: rat
  purchasePrice :: rat
  stock :: int
  barcode :: "string option"
  category :: string
  discountPercentage :: rat
  pupdatedAt :: timestamp

text \<open>The item snapshot and the fee with its computed amount, as \<^verbatim>\<open>completeTransaction\<close>
  writes them into the transaction record.\<close>

record tx_item =
  xid :: nat
  xname :: string
  xquantity :: int
  xprice :: rat
  xeffectivePrice :: rat
  xdiscountPercentage :: rat

record applied_fee =
  afee :: fee
  amount :: rat

record transaction =
  tid :: nat
  titems :: "tx_item list"
  subtotal :: rat
  totalDiscount :: rat
  tfees :: "applied_fee list"
  total :: rat
  cashPaid :: rat
  change :: rat
  tdate :: timestamp

datatype payload = PTransaction transaction | PProduct product | PFee fee | PUndefined

record sync_entry =
  qid :: nat
  action :: string
  qpayload :: payload
  qtimestamp :: timestamp

record pos_db =
  products :: "product store"
  transactions :: "transaction store"
  feeStore :: "fee store"
  sync_queue :: "sync_entry store"

text \<open>
  The state the cashier screen works on: the stores, the global \<^verbatim>\<open>cart\<close>, the receipt
  being shown, and the three facts of the payment dialog that decide whether a click can
  reach \<^verbatim>\<open>completeTransaction\<close>: whether the dialog is open, the parsed content of the
  cash field (\<open>None\<close> when \<^verbatim>\<open>parseFloat\<close> gives \<^verbatim>\<open>NaN\<close>, as for the empty field) and
  whether the \<^verbatim>\<open>completeTransactionButton\<close> is disabled.
\<close>

record app =
  db :: pos_db
  cart :: cart
  paymentModalOpen :: bool
  cashPaidInput :: "rat option"
  buttonDisabled :: bool
  currentReceiptTransaction :: "transaction option"

text \<open>\<^verbatim>\<open>queueSyncAction\<close> appends the entry to the \<^verbatim>\<open>sync_queue\<close> store. The sync cycle it
  triggers when online runs on its own and is modelled in the section on synchronisation.\<close>

definition queueSyncAction :: "timestamp \<Rightarrow> string \<Rightarrow> payload \<Rightarrow> pos_db \<Rightarrow> pos_db" where
  "queueSyncAction now act p d =
     d\<lparr>sync_queue := snd (putNew (\<lambda>k. \<lparr>qid = k, action = act, qpayload = p, qtimestamp = now\<rparr>)
                              (sync_queue d))\<rparr>"

subsection \<open>Stock adjustment\<close>

definition increaseStock :: "timestamp \<Rightarrow> nat \<Rightarrow> pos_db \<Rightarrow> pos_db" where
  "increaseStock now productId d =
     (case getFromDB (products d) productId of
        None \<Rightarrow> d
      | Some p \<Rightarrow>
          (let p' = p\<lparr>stock := stock p + 1, pupdatedAt := now\<rparr>
           in queueSyncAction now ''UPDATE_PRODUCT'' (PProduct p')
                (d\<lparr>products := putAt (pid p') p' (products d)\<rparr>)))"

definition decreaseStock :: "timestamp \<Rightarrow> nat \<Rightarrow> pos_db \<Rightarrow> pos_db" where
  "decreaseStock now productId d =
     (case getFromDB (products d) productId of
        None \<Rightarrow> d
      | Some p \<Rightarrow>
          if stock p \<le> 0 then d
          else
            (let p' = p\<lparr>stock := stock p - 1, pupdatedAt := now\<rparr>
             in queueSyncAction now ''UPDATE_PRODUCT'' (PProduct p')
                  (d\<lparr>products := putAt (pid p') p' (products d)\<rparr>)))"

text \<open>\<^verbatim>\<open>deleteProduct\<close>, once confirmed: the record is read for the sync entry (it is
  \<^verbatim>\<open>undefined\<close> when there is no such product) and the key is deleted.\<close>

definition deleteProduct :: "timestamp \<Rightarrow> nat \<Rightarrow> pos_db \<Rightarrow> pos_db" where
  "deleteProduct now productId d =
     (let productToDelete = getFromDB (products d) productId
      in queueSyncAction now ''DELETE_PRODUCT''
           (case productToDelete of None \<Rightarrow> PUndefined | Some p \<Rightarrow> PProduct p)
           (d\<lparr>products := deleteFromDB productId (products d)\<rparr>))"

subsection \<open>Cart operations\<close>

text \<open>\<^verbatim>\<open>cart.items.find(...)\<close> returns the first matching item, which the caller then
  changes in place.\<close>

fun update_first :: "('a \<Rightarrow> bool) \<Rightarrow> ('a \<Rightarrow> 'a) \<Rightarrow> 'a list \<Rightarrow> 'a list" where
  "update_first P f [] = []"
| "update_first P f (x # xs) = (if P x then f x # xs else x # update_first P f xs)"

definition newCartItem :: "product \<Rightarrow> cart_item" where
  "newCartItem p =
     (let hasDiscount = (discountPercentage p \<noteq> 0 \<and> discountPercentage p > 0);
          ep = (if hasDiscount then price p * (1 - discountPercentage p / 100) else price p)
      in \<lparr>iid = pid p, iname = pname p, iprice = price p, effectivePrice = ep,
          idiscountPercentage = discountPercentage p, quantity = 1, istock = stock p\<rparr>)"

definition addToCart :: "nat \<Rightarrow> app \<Rightarrow> app" where
  "addToCart productId s =
     (case getFromDB (products (db s)) productId of
        None \<Rightarrow> s
      | Some p \<Rightarrow>
          if stock p = 0 then s
          else
            (case find (\<lambda>i. iid i = productId) (items (cart s)) of
               Some existingItem \<Rightarrow>
                 if quantity existingItem < stock p
                 then s\<lparr>cart := (cart s)\<lparr>items :=
                        update_first (\<lambda>i. iid i = productId)
                          (\<lambda>i. i\<lparr>quantity := quantity i + 1\<rparr>) (items (cart s))\<rparr>\<rparr>
                 else s
             | None \<Rightarrow> s\<lparr>cart := (cart s)\<lparr>items := items (cart s) @ [newCartItem p]\<rparr>\<rparr>))"

definition updateCartItemQuantity :: "nat \<Rightarrow> int \<Rightarrow> app \<Rightarrow> app" where
  "updateCartItemQuantity productId chg s =
     (case find (\<lambda>i. iid i = productId) (items (cart s)) of
        None \<Rightarrow> s
      | Some item \<Rightarrow>
          (let newQuantity = quantity item + chg in
           if newQuantity > 0 \<and> newQuantity \<le> istock item
           then s\<lparr>cart := (cart s)\<lparr>items :=
                  update_first (\<lambda>i. iid i = productId)
                    (\<lambda>i. i\<lparr>quantity := newQuantity\<rparr>) (items (cart s))\<rparr>\<rparr>
           else if newQuantity > istock item then s
           else s\<lparr>cart := (cart s)\<lparr>items :=
                  filter (\<lambda>i. iid i \<noteq> productId) (items (cart s))\<rparr>\<rparr>))"

definition clearCart :: "app \<Rightarrow> app" where
  "clearCart s =
     (if items (cart s) = [] then s
      else s\<lparr>cart := applyDefaultFees (feeStore (db s)) ((cart s)\<lparr>items := []\<rparr>)\<rparr>)"

subsection \<open>Totals\<close>

text \<open>
  The source has no single totals function. \<^verbatim>\<open>updateCartDisplay\<close>, \<^verbatim>\<open>showPaymentModal\<close>
  and the handler of the cash field each compute the subtotal from the discounted price
  and apply a percentage fee to it; \<^verbatim>\<open>completeTransaction\<close> computes the subtotal from
  the original price, the discount separately, and applies a percentage fee to their
  difference. Each is written here as the loop the source runs.
\<close>

definition feeAmountOn :: "rat \<Rightarrow> fee \<Rightarrow> rat" where
  "feeAmountOn base f = (if ftype f = ''percentage'' then base * (fvalue f / 100) else fvalue f)"

record totals_shown =
  shownSubtotal :: rat
  shownFeeAmounts :: "rat list"
  shownTotal :: rat

definition cartSubtotal :: "cart \<Rightarrow> rat" where
  "cartSubtotal c = foldl (\<lambda>sum item. sum + effectivePrice item * of_int (quantity item)) 0 (items c)"

definition updateCartDisplay :: "cart \<Rightarrow> totals_shown" where
  "updateCartDisplay c =
     (let subtotal = cartSubtotal c;
          loop = foldl (\<lambda>acc f. (fst acc + feeAmountOn subtotal f, snd acc @ [feeAmountOn subtotal f]))
                   (0, []) (fees c)
      in \<lparr>shownSubtotal = subtotal, shownFeeAmounts = snd loop, shownTotal = subtotal + fst loop\<rparr>)"

text \<open>The total of the payment dialog (\<^verbatim>\<open>finalTotal\<close> in \<^verbatim>\<open>showPaymentModal\<close>, \<^verbatim>\<open>total\<close> in
  the handler of the cash field: the same two loops).\<close>

definition paymentTotal :: "cart \<Rightarrow> rat" where
  "paymentTotal c =
     (let subtotal = cartSubtotal c;
          totalFees = foldl (\<lambda>totalFees f. totalFees + feeAmountOn subtotal f) 0 (fees c)
      in subtotal + totalFees)"

definition checkoutSubtotal :: "cart \<Rightarrow> rat" where
  "checkoutSubtotal c = foldl (\<lambda>sum item. sum + iprice item * of_int (quantity item)) 0 (items c)"

definition checkoutDiscount :: "cart \<Rightarrow> rat" where
  "checkoutDiscount c =
     foldl (\<lambda>sum item. sum + (iprice item * (idiscountPercentage item / 100)) * of_int (quantity item))
       0 (items c)"

definition checkoutFees :: "rat \<Rightarrow> fee list \<Rightarrow> applied_fee list \<times> rat" where
  "checkoutFees subtotalAfterDiscount fs =
     foldl (\<lambda>acc f. (fst acc @ [\<lparr>afee = f, amount = feeAmountOn subtotalAfterDiscount f\<rparr>],
                      snd acc + feeAmountOn subtotalAfterDiscount f))
       ([], 0) fs"

definition snapshotItem :: "cart_item \<Rightarrow> tx_item" where
  "snapshotItem item =
     \<lparr>xid = iid item, xname = iname item, xquantity = quantity item, xprice = iprice item,
      xeffectivePrice = effectivePrice item, xdiscountPercentage = idiscountPercentage item\<rparr>"

text \<open>The transaction object built in \<^verbatim>\<open>completeTransaction\<close>, before the store gives it
  an id. The cash is \<^verbatim>\<open>parseFloat(...) || 0\<close>.\<close>

definition buildTransaction :: "timestamp \<Rightarrow> rat option \<Rightarrow> cart \<Rightarrow> nat \<Rightarrow> transaction" where
  "buildTransaction now cashInput c k =
     (let cashPaid = (case cashInput of None \<Rightarrow> 0 | Some v \<Rightarrow> v);
          subtotal = checkoutSubtotal c;
          totalDiscount = checkoutDiscount c;
          subtotalAfterDiscount = subtotal - totalDiscount;
          calc = checkoutFees subtotalAfterDiscount (fees c);
          total = subtotalAfterDiscount + snd calc
      in \<lparr>tid = k, titems = map snapshotItem (items c), subtotal = subtotal,
          totalDiscount = totalDiscount, tfees = fst calc, total = total,
          cashPaid = cashPaid, change = cashPaid - total, tdate = now\<rparr>)"

subsection \<open>Checkout\<close>

text \<open>The stock update of one line item: the product is read, and written back with the
  quantity subtracted when it exists; a product that is gone is skipped.\<close>

definition updateStockFor :: "timestamp \<Rightarrow> pos_db \<Rightarrow> cart_item \<Rightarrow> pos_db" where
  "updateStockFor now d item =
     (case getFromDB (products d) (iid item) of
        None \<Rightarrow> d
      | Some p \<Rightarrow>
          (let p' = p\<lparr>stock := stock p - quantity item, pupdatedAt := now\<rparr>
           in queueSyncAction now ''UPDATE_PRODUCT'' (PProduct p')
                (d\<lparr>products := putAt (pid p') p' (products d)\<rparr>)))"

text \<open>
  \<^verbatim>\<open>completeTransaction\<close> of the cashier script: the transaction is written by a
  \<^verbatim>\<open>putToDB\<close> of its own, then each product by another. It ends in \<^verbatim>\<open>showReceiptModal\<close>,
  which closes the payment dialog, and its \<^verbatim>\<open>finally\<close> block enables the button again.
\<close>

definition completeTransaction :: "timestamp \<Rightarrow> app \<Rightarrow> app" where
  "completeTransaction now s =
     (let added = putNew (buildTransaction now (cashPaidInput s) (cart s)) (transactions (db s));
          addedId = fst added;
          t = buildTransaction now (cashPaidInput s) (cart s) addedId;
          d1 = queueSyncAction now ''CREATE_TRANSACTION'' (PTransaction t)
                 ((db s)\<lparr>transactions := snd added\<rparr>);
          d2 = foldl (updateStockFor now) d1 (items (cart s))
      in s\<lparr>db := d2, currentReceiptTransaction := Some t,
            paymentModalOpen := False, buttonDisabled := False\<rparr>)"

definition showPaymentModal :: "app \<Rightarrow> app" where
  "showPaymentModal s =
     (if items (cart s) = [] then s
      else s\<lparr>paymentModalOpen := True, cashPaidInput := None\<rparr>)"

text \<open>The \<^verbatim>\<open>input\<close> handler of the cash field, also fired by \<^verbatim>\<open>handleQuickCash\<close>: the
  button is enabled exactly when the change is not negative.\<close>

definition cashPaidInputHandler :: "rat option \<Rightarrow> app \<Rightarrow> app" where
  "cashPaidInputHandler v s =
     (let cashPaid = (case v of None \<Rightarrow> 0 | Some x \<Rightarrow> x);
          chg = cashPaid - paymentTotal (cart s)
      in s\<lparr>cashPaidInput := v, buttonDisabled := \<not> (chg \<ge> 0)\<rparr>)"

definition startNewTransaction :: "app \<Rightarrow> app" where
  "startNewTransaction s =
     s\<lparr>cart := applyDefaultFees (feeStore (db s)) \<lparr>items = [], fees = []\<rparr>,
       currentReceiptTransaction := None\<rparr>"

text \<open>
  What the user can do on the cashier and product screens. A click on the button of the
  payment dialog calls \<^verbatim>\<open>completeTransaction\<close> only while the dialog is open and the button
  is enabled; the cash field can be edited only while the dialog is open.
\<close>

datatype event =
    AddToCart nat
  | UpdateCartItemQuantity nat int
  | ClearCart
  | ShowPaymentModal
  | CashInput "rat option"
  | ClickComplete
  | StartNewTransaction
  | IncreaseStock nat
  | DecreaseStock nat
  | DeleteProduct nat

fun step :: "app \<Rightarrow> timestamp \<times> event \<Rightarrow> app" where
  "step s (now, AddToCart i) = addToCart i s"
| "step s (now, UpdateCartItemQuantity i c) = updateCartItemQuantity i c s"
| "step s (now, ClearCart) = clearCart s"
| "step s (now, ShowPaymentModal) = showPaymentModal s"
| "step s (now, CashInput v) = (if paymentModalOpen s then cashPaidInputHandler v s else s)"
| "step s (now, ClickComplete) =
     (if paymentModalOpen s \<and> \<not> buttonDisabled s then completeTransaction now s else s)"
| "step s (now, StartNewTransaction) = startNewTransaction s"
| "step s (now, IncreaseStock i) = s\<lparr>db := increaseStock now i (db s)\<rparr>"
| "step s (now, DecreaseStock i) = s\<lparr>db := decreaseStock now i (db s)\<rparr>"
| "step s (now, DeleteProduct i) = s\<lparr>db := deleteProduct now i (db s)\<rparr>"

definition run :: "app \<Rightarrow> (timestamp \<times> event) list \<Rightarrow> app" where
  "run s evs = foldl step s evs"

subsection \<open>Bounds on the quantities of a cart\<close>

definition quantity_positive :: "cart \<Rightarrow> bool" where
  "quantity_positive c = list_all (\<lambda>i. 1 \<le> quantity i) (items c)"

definition within_snapshot :: "cart \<Rightarrow> bool" where
  "within_snapshot c = list_all (\<lambda>i. quantity i \<le> istock i) (items c)"

text \<open>The stored stock of product \<open>i\<close> is not negative and not above the stock snapshot of
  a line of the cart for that product.\<close>

definition stock_within_snapshot :: "nat \<Rightarrow> app \<Rightarrow> bool" where
  "stock_within_snapshot i s =
     (case getFromDB (products (db s)) i of
        None \<Rightarrow> True
      | Some p \<Rightarrow> 0 \<le> stock p \<and>
          list_all (\<lambda>item. iid item \<noteq> i \<or> stock p \<le> istock item) (items (cart s)))"

section \<open>The checkout of index.js\<close>

text \<open>
  In \<^verbatim>\<open>index.js\<close> a line of the cart is the product with a quantity
  (\<^verbatim>\<open>{ ...product, quantity: 1 }\<close>), the total is computed by \<^verbatim>\<open>calculateTotal\<close>, and the cash
  is \<^verbatim>\<open>parseFloat\<close> of the field with no default, so it may be \<^verbatim>\<open>NaN\<close> (\<open>None\<close>).
\<close>

record cart_line = product +
  lquantity :: int

record sale =
  sid :: nat
  sdate :: timestamp
  sitems :: "cart_line list"
  ssubtotal :: rat
  stotal :: rat
  sfees :: "fee list"
  scashPaid :: "rat option"
  schange :: "rat option"
  receiptNumber :: timestamp

record idb =
  iproducts :: "product store"
  itransactions :: "sale store"

datatype checkout_error = ProductNotFound nat

definition calculateTotal :: "cart_line list \<Rightarrow> fee list \<Rightarrow> rat" where
  "calculateTotal lines fs =
     (let subtotal = foldl (\<lambda>acc item. acc + price item * of_int (lquantity item)) 0 lines;
          feeAmount = foldl (\<lambda>acc f. acc + (if ftype f = ''percentage''
                                              then subtotal * fvalue f / 100 else fvalue f)) 0 fs
      in subtotal + feeAmount)"

definition newTransaction :: "timestamp \<Rightarrow> rat option \<Rightarrow> cart_line list \<Rightarrow> fee list \<Rightarrow> nat \<Rightarrow> sale" where
  "newTransaction now cash lines fs k =
     (let total = calculateTotal lines fs;
          subtotal = foldl (\<lambda>acc item. acc + price item * of_int (lquantity item)) 0 lines
      in \<lparr>sid = k, sdate = now, sitems = lines, ssubtotal = subtotal, stotal = total,
          sfees = fs, scashPaid = cash, schange = map_option (\<lambda>c. c - total) cash,
          receiptNumber = now\<rparr>)"

text \<open>
  The block marked \<^verbatim>\<open>ATOMIC TRANSACTION\<close>: one IndexedDB transaction over both stores. The
  \<^verbatim>\<open>add\<close> of the transaction record and the \<^verbatim>\<open>get\<close> of every product are requested at once,
  so every \<^verbatim>\<open>get\<close> reads the store as it was; the success handler of a \<^verbatim>\<open>get\<close> requests the
  \<^verbatim>\<open>put\<close> of the product with its stock lowered, or rejects its promise when there is no
  such product. Rejecting a promise is all the handler does: nothing calls
  \<^verbatim>\<open>tx.abort()\<close> and no request fails, so the IndexedDB transaction commits what was
  requested, while \<^verbatim>\<open>Promise.all\<close> rejects with the first error and the \<^verbatim>\<open>catch\<close> block
  reports it.
\<close>

definition stockPut :: "product store \<Rightarrow> cart_line \<times> product option \<Rightarrow> product store" where
  "stockPut st ig =
     (case snd ig of
        Some p \<Rightarrow> putAt (pid p) (p\<lparr>stock := stock p - lquantity (fst ig)\<rparr>) st
      | None \<Rightarrow> st)"

definition completeTransaction_index ::
  "timestamp \<Rightarrow> rat option \<Rightarrow> cart_line list \<Rightarrow> fee list \<Rightarrow> idb \<Rightarrow> checkout_error option \<times> idb" where
  "completeTransaction_index now cash lines fs d =
     (let added = putNew (newTransaction now cash lines fs) (itransactions d);
          gets = map (\<lambda>item. getFromDB (iproducts d) (pid item)) lines;
          rejected = find (\<lambda>item. getFromDB (iproducts d) (pid item) = None) lines;
          committed = \<lparr>iproducts = foldl stockPut (iproducts d) (zip lines gets),
                       itransactions = snd added\<rparr>
      in (map_option (\<lambda>item. ProductNotFound (pid item)) rejected, committed))"

section \<open>Synchronisation with the server\<close>

text \<open>
  The sync code treats every record as a plain object: it reads \<^verbatim>\<open>serverId\<close>,
  \<^verbatim>\<open>updatedAt\<close> and \<^verbatim>\<open>id\<close> and copies all other properties as they are. Here a record is a
  finite map from property names to values; a property that is absent reads as
  \<^verbatim>\<open>undefined\<close>. A record held in a store is the pair of its key and its other properties:
  the \<^verbatim>\<open>id\<close> property of a stored object always equals its key, so it is not repeated in
  the map. A string that holds an ISO timestamp is the value \<open>JTime\<close> of its instant; \<open>JStr\<close>
  stands for every other string.
\<close>

datatype jsval = JNull | JBool bool | JNum rat | JStr string | JTime timestamp

type_synonym obj = "string \<rightharpoonup> jsval"

definition truthy :: "jsval option \<Rightarrow> bool" where
  "truthy v =
     (case v of
        None \<Rightarrow> False
      | Some JNull \<Rightarrow> False
      | Some (JBool b) \<Rightarrow> b
      | Some (JNum n) \<Rightarrow> n \<noteq> 0
      | Some (JStr s) \<Rightarrow> s \<noteq> []
      | Some (JTime t) \<Rightarrow> True)"

text \<open>The time value of \<^verbatim>\<open>new Date(v)\<close>; \<open>None\<close> is the invalid date, whose time value
  \<^verbatim>\<open>NaN\<close> makes every comparison false. A number is cut to an integer; a number or a
  timestamp more than 8.64e15 milliseconds from the epoch gives the invalid date.\<close>

definition Date_new :: "jsval option \<Rightarrow> timestamp option" where
  "Date_new v =
     (case v of
        None \<Rightarrow> None
      | Some JNull \<Rightarrow> Some 0
      | Some (JBool b) \<Rightarrow> Some (if b then 1 else 0)
      | Some (JNum n) \<Rightarrow>
          if \<bar>n\<bar> > 8640000000000000 then None
          else Some (if n \<ge> 0 then \<lfloor>n\<rfloor> else \<lceil>n\<rceil>)
      | Some (JStr s) \<Rightarrow> None
      | Some (JTime t) \<Rightarrow> if \<bar>t\<bar> > 8640000000000000 then None else Some t)"

definition date_gt :: "jsval option \<Rightarrow> jsval option \<Rightarrow> bool" where
  "date_gt a b =
     (case Date_new a of
        None \<Rightarrow> False
      | Some x \<Rightarrow> (case Date_new b of None \<Rightarrow> False | Some y \<Rightarrow> x > y))"

subsection \<open>Unique indexes\<close>

text \<open>
  The schema gives the store \<^verbatim>\<open>products\<close> a unique index on \<^verbatim>\<open>barcode\<close> and the store
  \<^verbatim>\<open>categories\<close> a unique index on \<^verbatim>\<open>name\<close>. A record enters an index when the indexed
  property is a valid key (a number or a string; not \<^verbatim>\<open>null\<close>, a boolean or a missing
  property). A \<^verbatim>\<open>put\<close> whose indexed value is already held by a record with another key
  fails with a \<^verbatim>\<open>ConstraintError\<close>; no handler of the sync code prevents the default of
  that error, so the transaction the request belongs to is aborted and all its writes are
  undone. The state of a running transaction is the store it would commit, or \<open>None\<close> once
  a request has failed.
\<close>

definition indexKey :: "string \<Rightarrow> obj \<Rightarrow> jsval option" where
  "indexKey keyPath p =
     (case p keyPath of
        Some (JNum n) \<Rightarrow> Some (JNum n)
      | Some (JStr s) \<Rightarrow> Some (JStr s)
      | Some (JTime t) \<Rightarrow> Some (JTime t)
      | _ \<Rightarrow> None)"

definition violates :: "string \<Rightarrow> nat \<Rightarrow> obj \<Rightarrow> obj store \<Rightarrow> bool" where
  "violates keyPath k p st =
     (indexKey keyPath p \<noteq> None \<and>
      list_ex (\<lambda>kv. fst kv \<noteq> k \<and> indexKey keyPath (snd kv) = indexKey keyPath p) (recs st))"

definition putChecked :: "string \<Rightarrow> nat \<Rightarrow> obj \<Rightarrow> obj store \<Rightarrow> obj store option" where
  "putChecked keyPath k p st = (if violates keyPath k p st then None else Some (putAt k p st))"

definition addChecked :: "string \<Rightarrow> obj \<Rightarrow> obj store \<Rightarrow> obj store option" where
  "addChecked keyPath p st = putChecked keyPath (nextKey st) p st"

text \<open>
  A property is unique among the records of a store when two records that both have it,
  with the same value, are the same record. Every store that IndexedDB holds satisfies its
  unique index in this sense.
\<close>

definition unique_on :: "(obj \<Rightarrow> jsval option) \<Rightarrow> obj store \<Rightarrow> bool" where
  "unique_on g st =
     list_all (\<lambda>x. list_all (\<lambda>y. g (snd x) = None \<or> g (snd x) \<noteq> g (snd y) \<or> fst x = fst y)
                       (recs st)) (recs st)"

definition index_unique :: "string \<Rightarrow> obj store \<Rightarrow> bool" where
  "index_unique keyPath st = unique_on (indexKey keyPath) st"

subsection \<open>The outbox\<close>

record task =
  taskAction :: string
  payloadId :: "nat option"
  taskPayload :: obj
  taskTimestamp :: timestamp

record response =
  success :: bool
  serverId :: "jsval option"
  localId :: "nat option"

record sync_db =
  sProducts :: "obj store"
  sCategories :: "obj store"
  sTransactions :: "obj store"
  sFees :: "obj store"
  sQueue :: "task store"
  sSettings :: "string \<rightharpoonup> jsval"

text \<open>
  \<^verbatim>\<open>queueSyncAction\<close> on the database of this section:
  \<^verbatim>\<open>putToDB('sync_queue', { action, payload, timestamp })\<close>. The store generates the key of
  the entry. The sync cycle that \<^verbatim>\<open>queueSyncAction\<close> starts when online runs on its own;
  it is \<open>syncWithServer\<close> below.
\<close>

definition enqueue :: "timestamp \<Rightarrow> string \<Rightarrow> nat option \<Rightarrow> obj \<Rightarrow> sync_db \<Rightarrow> sync_db" where
  "enqueue now act pidOpt p d =
     d\<lparr>sQueue := snd (putNew (\<lambda>k. \<lparr>taskAction = act, payloadId = pidOpt, taskPayload = p,
                                     taskTimestamp = now\<rparr>) (sQueue d))\<rparr>"

text \<open>
  The queue is in order when its keys ascend strictly and lie below the key generator, as
  in every store whose keys the store generates.
\<close>

definition queue_ok :: "task store \<Rightarrow> bool" where
  "queue_ok st =
     (sorted_wrt (<) (map fst (recs st)) \<and> list_all (\<lambda>kv. fst kv < nextKey st) (recs st))"

text \<open>\<^verbatim>\<open>String.prototype.includes\<close> and \<^verbatim>\<open>startsWith\<close>.\<close>

fun includes_str :: "string \<Rightarrow> string \<Rightarrow> bool" where
  "includes_str [] sub = (sub = [])"
| "includes_str (c # cs) sub = (take (length sub) (c # cs) = sub \<or> includes_str cs sub)"

definition startsWith :: "string \<Rightarrow> string \<Rightarrow> bool" where
  "startsWith s pre = (take (length pre) s = pre)"

datatype store_name = Products | Categories | Transactions | Fees

text \<open>The four \<^verbatim>\<open>if\<close> statements that choose \<^verbatim>\<open>storeName\<close>: a later match replaces an
  earlier one.\<close>

definition storeNameOf :: "string \<Rightarrow> store_name option" where
  "storeNameOf act =
     (let s0 = None;
          s1 = (if includes_str act ''PRODUCT'' then Some Products else s0);
          s2 = (if includes_str act ''CATEGORY'' then Some Categories else s1);
          s3 = (if includes_str act ''TRANSACTION'' then Some Transactions else s2);
          s4 = (if includes_str act ''FEE'' then Some Fees else s3)
      in s4)"

definition storeOf :: "store_name \<Rightarrow> sync_db \<Rightarrow> obj store" where
  "storeOf n d =
     (case n of Products \<Rightarrow> sProducts d | Categories \<Rightarrow> sCategories d
      | Transactions \<Rightarrow> sTransactions d | Fees \<Rightarrow> sFees d)"

definition setStore :: "store_name \<Rightarrow> obj store \<Rightarrow> sync_db \<Rightarrow> sync_db" where
  "setStore n st d =
     (case n of Products \<Rightarrow> d\<lparr>sProducts := st\<rparr> | Categories \<Rightarrow> d\<lparr>sCategories := st\<rparr>
      | Transactions \<Rightarrow> d\<lparr>sTransactions := st\<rparr> | Fees \<Rightarrow> d\<lparr>sFees := st\<rparr>)"

text \<open>
  After a successful call for a \<^verbatim>\<open>CREATE_\<close> action the server's id is written onto the local
  record. The record keeps its key and its indexed properties, so the \<^verbatim>\<open>put\<close> cannot fail.
  A \<^verbatim>\<open>localId\<close> of 0 is falsy.
\<close>

definition writeServerId :: "task \<Rightarrow> response \<Rightarrow> sync_db \<Rightarrow> sync_db" where
  "writeServerId t r d =
     (if startsWith (taskAction t) ''CREATE_'' \<and> truthy (serverId r) \<and>
         localId r \<noteq> None \<and> localId r \<noteq> Some 0
      then
        (case storeNameOf (taskAction t) of
           None \<Rightarrow> d
         | Some n \<Rightarrow>
             (case getFromDB (storeOf n d) (the (localId r)) of
                None \<Rightarrow> d
              | Some item \<Rightarrow>
                  setStore n (putAt (the (localId r)) (item(''serverId'' := serverId r)) (storeOf n d)) d))
      else d)"

text \<open>
  What a sync cycle does to the outside world: the remote call for an entry of the queue
  (with the key of the entry), and the request for the server's updates.
\<close>

datatype sync_event = ApiCall nat task | Fetch "jsval option"

text \<open>
  The push loop over the entries \<^verbatim>\<open>getAllFromDB('sync_queue')\<close> returned. The remote call is
  an argument: the source mocks it with a call that always succeeds. A response without
  \<^verbatim>\<open>success\<close> throws, which ends the loop; the result says whether the loop threw.
\<close>

fun pushLoop :: "(task \<Rightarrow> response) \<Rightarrow> (nat \<times> task) list \<Rightarrow> sync_db \<Rightarrow> sync_event list
     \<Rightarrow> bool \<times> sync_db \<times> sync_event list" where
  "pushLoop api [] d trace = (False, d, trace)"
| "pushLoop api ((k, t) # syncQueue) d trace =
     (let resp = api t; trace' = trace @ [ApiCall k t] in
      if success resp
      then pushLoop api syncQueue
             ((writeServerId t resp d)\<lparr>sQueue := deleteFromDB k (sQueue (writeServerId t resp d))\<rparr>) trace'
      else (True, d, trace'))"

subsection \<open>The pull and the merge\<close>

record serverUpdates =
  suProducts :: "obj list"
  suCategories :: "obj list"
  deletedProducts :: "jsval list"
  deletedCategories :: "jsval list"

text \<open>\<^verbatim>\<open>new Map(locals.filter(p => p.serverId).map(p => [p.serverId, p]))\<close>: the map holds the
  objects \<^verbatim>\<open>getAll\<close> returned, which the loop below changes in place.\<close>

definition serverIdMap :: "obj store \<Rightarrow> (jsval \<rightharpoonup> nat \<times> obj)" where
  "serverIdMap st =
     Map_new (map (\<lambda>kv. (the (snd kv ''serverId''), kv))
                (filter (\<lambda>kv. truthy (snd kv ''serverId'')) (recs st)))"

definition lookupServerId :: "(jsval \<rightharpoonup> nat \<times> obj) \<Rightarrow> jsval option \<Rightarrow> (nat \<times> obj) option" where
  "lookupServerId m key = (case key of None \<Rightarrow> None | Some v \<Rightarrow> m v)"

text \<open>\<^verbatim>\<open>Object.assign(local, server, { id: local.id })\<close> on the properties other than
  \<^verbatim>\<open>id\<close>, and \<^verbatim>\<open>const { id, ...rest } = server\<close>.\<close>

definition assignServer :: "obj \<Rightarrow> obj \<Rightarrow> obj" where
  "assignServer localObj serverObj = (localObj ++ serverObj)(''id'' := None)"

definition withoutId :: "obj \<Rightarrow> obj" where
  "withoutId serverObj = serverObj(''id'' := None)"

definition remoteIsNewer :: "obj \<Rightarrow> obj \<Rightarrow> bool" where
  "remoteIsNewer localObj serverObj =
     (\<not> truthy (localObj ''updatedAt'') \<or> date_gt (serverObj ''updatedAt'') (localObj ''updatedAt''))"

text \<open>
  One turn of the loop over the server's records of one kind. The requests of the loop are
  carried out in the order in which they are made, so the transaction state is threaded
  with the map.
\<close>

definition mergeRecord :: "string \<Rightarrow> (jsval \<rightharpoonup> nat \<times> obj) \<times> obj store option \<Rightarrow> obj
     \<Rightarrow> (jsval \<rightharpoonup> nat \<times> obj) \<times> obj store option" where
  "mergeRecord keyPath acc serverObj =
     (case lookupServerId (fst acc) (serverObj ''serverId'') of
        Some (k, localObj) \<Rightarrow>
          if remoteIsNewer localObj serverObj
          then ((fst acc)(the (serverObj ''serverId'') \<mapsto> (k, assignServer localObj serverObj)),
                Option.bind (snd acc) (putChecked keyPath k (assignServer localObj serverObj)))
          else acc
      | None \<Rightarrow> (fst acc, Option.bind (snd acc) (addChecked keyPath (withoutId serverObj))))"

definition deleteMarked :: "(jsval \<rightharpoonup> nat \<times> obj) \<Rightarrow> obj store option \<Rightarrow> jsval
     \<Rightarrow> obj store option" where
  "deleteMarked m tx serverIdToDelete =
     (case m serverIdToDelete of
        Some (k, localObj) \<Rightarrow> map_option (deleteFromDB k) tx
      | None \<Rightarrow> tx)"

text \<open>The requests of a merge on one store: the loop over the server's records of that
  kind, then the loop over the deletion markers of that kind.\<close>

definition mergeKind :: "string \<Rightarrow> obj list \<Rightarrow> jsval list \<Rightarrow> obj store \<Rightarrow> obj store option" where
  "mergeKind keyPath serverObjs deleted st =
     (let r = foldl (mergeRecord keyPath) (serverIdMap st, Some st) serverObjs
      in foldl (deleteMarked (fst r)) (snd r) deleted)"

text \<open>
  The merge of \<^verbatim>\<open>syncWithServer\<close>: one transaction over \<^verbatim>\<open>products\<close> and \<^verbatim>\<open>categories\<close>,
  in which the loops run in the order products, categories, deleted products, deleted
  categories. When a request fails the transaction is aborted and neither store changes.
\<close>

definition mergeServerUpdates :: "serverUpdates \<Rightarrow> sync_db \<Rightarrow> sync_db" where
  "mergeServerUpdates su d =
     (if suProducts su \<noteq> [] \<or> suCategories su \<noteq> [] \<or>
         deletedProducts su \<noteq> [] \<or> deletedCategories su \<noteq> []
      then
        (let p1 = foldl (mergeRecord ''barcode'') (serverIdMap (sProducts d), Some (sProducts d))
                    (suProducts su);
             c1 = foldl (mergeRecord ''name'') (serverIdMap (sCategories d), Some (sCategories d))
                    (suCategories su);
             p2 = foldl (deleteMarked (fst p1)) (snd p1) (deletedProducts su);
             c2 = foldl (deleteMarked (fst c1)) (snd c1) (deletedCategories su)
         in case p2 of
              None \<Rightarrow> d
            | Some ps \<Rightarrow> (case c2 of None \<Rightarrow> d | Some cs \<Rightarrow> d\<lparr>sProducts := ps, sCategories := cs\<rparr>))
      else d)"

text \<open>
  The remote identity of a record is its \<^verbatim>\<open>serverId\<close> when that is truthy. A store is in
  order when its keys ascend strictly and lie below the key generator, it satisfies its
  unique index, and no two of its records have the same remote identity. The server's
  records and deletion markers of one kind are in order when every record has a remote
  identity, no two records have the same, and none is also marked as deleted.
\<close>

definition remoteIdentity :: "obj \<Rightarrow> jsval option" where
  "remoteIdentity p = (if truthy (p ''serverId'') then p ''serverId'' else None)"

definition store_ok :: "string \<Rightarrow> obj store \<Rightarrow> bool" where
  "store_ok keyPath st =
     (sorted_wrt (<) (map fst (recs st)) \<and> list_all (\<lambda>kv. fst kv < nextKey st) (recs st) \<and>
      index_unique keyPath st \<and> unique_on remoteIdentity st)"

definition delta_ok :: "obj list \<Rightarrow> jsval list \<Rightarrow> bool" where
  "delta_ok serverObjs deleted =
     (list_all (\<lambda>p. truthy (p ''serverId'')) serverObjs \<and>
      distinct (map (\<lambda>p. p ''serverId'') serverObjs) \<and>
      list_all (\<lambda>p. p ''serverId'' \<notin> Some ` set deleted) serverObjs)"

text \<open>\<^verbatim>\<open>mockFetchFromServer\<close> over the data the server holds.\<close>

definition mockFetchFromServer :: "serverUpdates \<Rightarrow> jsval option \<Rightarrow> serverUpdates" where
  "mockFetchFromServer mockServerData lastSync =
     (let lastSyncDate = (if truthy lastSync then Date_new lastSync else Some 0);
          newer = (\<lambda>p. case Date_new (p ''updatedAt'') of
                          None \<Rightarrow> False
                        | Some x \<Rightarrow> (case lastSyncDate of None \<Rightarrow> False | Some y \<Rightarrow> x > y))
      in \<lparr>suProducts = filter newer (suProducts mockServerData),
          suCategories = filter newer (suCategories mockServerData),
          deletedProducts = deletedProducts mockServerData,
          deletedCategories = deletedCategories mockServerData\<rparr>)"

text \<open>
  \<^verbatim>\<open>syncWithServer\<close>. Offline, or while another cycle runs, it returns at once. Otherwise
  it pushes the queue; when the push threw, the \<^verbatim>\<open>catch\<close> block ends the cycle; otherwise
  it asks the server for the updates since \<^verbatim>\<open>lastSync\<close>, merges them and records the new
  \<^verbatim>\<open>lastSync\<close>. The result is the database and what the cycle did to the outside.
\<close>

definition syncWithServer ::
  "(task \<Rightarrow> response) \<Rightarrow> (jsval option \<Rightarrow> serverUpdates) \<Rightarrow> timestamp \<Rightarrow> bool \<Rightarrow> bool
     \<Rightarrow> sync_db \<Rightarrow> sync_db \<times> sync_event list" where
  "syncWithServer api fetch now isOnline isSyncing d =
     (if \<not> isOnline then (d, [])
      else if isSyncing then (d, [])
      else
        (case pushLoop api (recs (sQueue d)) d [] of
           (True, d1, trace) \<Rightarrow> (d1, trace)
         | (False, d1, trace) \<Rightarrow>
             (let lastSync = sSettings d1 ''lastSync'';
                  d2 = mergeServerUpdates (fetch lastSync) d1
              in (d2\<lparr>sSettings := (sSettings d2)(''lastSync'' \<mapsto> JTime now)\<rparr>,
                  trace @ [Fetch lastSync]))))"
text \<open>
  What holds while the loop over the server's records runs, after the records \<open>seen\<close>:
  the store of the transaction is in order; the map holds current records of the store
  under their remote identities; a record of the store with a remote identity is held by
  the map or was inserted for one of the records seen; and every record seen is settled.
  A server record is settled in a store when the store has a record with its remote
  identity that a further merge of the server record would leave as it is.
\<close>

definition settled :: "obj store \<Rightarrow> obj \<Rightarrow> bool" where
  "settled st serverObj =
     (\<exists>kv \<in> set (recs st). remoteIdentity (snd kv) = serverObj ''serverId'' \<and>
        (remoteIsNewer (snd kv) serverObj \<longrightarrow> assignServer (snd kv) serverObj = snd kv))"

definition merge_inv :: "string \<Rightarrow> obj list \<Rightarrow> (jsval \<rightharpoonup> nat \<times> obj) \<Rightarrow> obj store \<Rightarrow> bool" where
  "merge_inv keyPath seen m st =
     (store_ok keyPath st \<and>
      (\<forall>v k p. m v = Some (k, p) \<longrightarrow> (k, p) \<in> set (recs st) \<and> remoteIdentity p = Some v) \<and>
      (\<forall>kv \<in> set (recs st). \<forall>v. remoteIdentity (snd kv) = Some v \<longrightarrow>
          m v = Some kv \<or> Some v \<in> (\<lambda>p. p ''serverId'') ` set seen) \<and>
      (\<forall>p \<in> set seen. settled st p))"

section \<open>Schema upgrades\<close>

text \<open>
  \<^verbatim>\<open>initDB\<close> opens the database with version 7. When the stored version is lower, IndexedDB
  runs \<^verbatim>\<open>onupgradeneeded\<close> inside one \<^verbatim>\<open>versionchange\<close> transaction, with the stored
  version as \<^verbatim>\<open>event.oldVersion\<close>. A store that does not exist is \<open>None\<close>. The stores
  \<^verbatim>\<open>settings\<close> and \<^verbatim>\<open>auto_backup\<close> have the key path \<^verbatim>\<open>key\<close>: they are maps from the key to
  the other properties of the object. The indexes that are not unique have no effect on
  what the stores hold and are left out; for the unique index on \<^verbatim>\<open>barcode\<close> the database
  records whether it exists. The only code that creates the store \<^verbatim>\<open>categories\<close> creates
  its unique index on \<^verbatim>\<open>name\<close> with it, so a store \<^verbatim>\<open>categories\<close> that exists has the index.
\<close>

record upgrade_db =
  uProducts :: "obj store option"
  uBarcodeIndex :: bool
  uTransactions :: "obj store option"
  uSettings :: "(string \<rightharpoonup> obj) option"
  uAutoBackup :: "(string \<rightharpoonup> obj) option"
  uCategories :: "obj store option"
  uSyncQueue :: "obj store option"
  uFees :: "obj store option"

text \<open>
  The handler is an \<^verbatim>\<open>async\<close> function: when a statement throws, the rest of the handler
  is skipped, the returned promise is rejected, and the transaction goes on with what was
  done (\<open>Thrown\<close>). When a request fails, or a callback of a request throws, the
  transaction is aborted and the database stays as it was (\<open>Aborted\<close>).
\<close>

datatype outcome = Continue upgrade_db | Thrown upgrade_db | Aborted

definition andThen :: "outcome \<Rightarrow> (upgrade_db \<Rightarrow> outcome) \<Rightarrow> outcome" where
  "andThen r f = (case r of Continue d \<Rightarrow> f d | Thrown d \<Rightarrow> Thrown d | Aborted \<Rightarrow> Aborted)"

definition whenOlder :: "nat \<Rightarrow> nat \<Rightarrow> (upgrade_db \<Rightarrow> outcome) \<Rightarrow> upgrade_db \<Rightarrow> outcome" where
  "whenOlder oldVersion v block d = (if oldVersion < v then block d else Continue d)"

text \<open>\<^verbatim>\<open>if (!db.objectStoreNames.contains(name)) db.createObjectStore(name, ...)\<close>.\<close>

definition createIfAbsent :: "'a \<Rightarrow> 'a option \<Rightarrow> 'a option" where
  "createIfAbsent fresh st = (case st of None \<Rightarrow> Some fresh | Some s \<Rightarrow> Some s)"

definition block2 :: "upgrade_db \<Rightarrow> outcome" where
  "block2 d =
     Continue (d\<lparr>uProducts := createIfAbsent empty_store (uProducts d),
                 uTransactions := createIfAbsent empty_store (uTransactions d),
                 uSettings := createIfAbsent Map.empty (uSettings d)\<rparr>)"

text \<open>The creation of a unique index fails, and aborts the transaction, when two records
  of the store have the same value of the indexed property.\<close>

definition block3 :: "upgrade_db \<Rightarrow> outcome" where
  "block3 d =
     (case uProducts d of
        None \<Rightarrow> Continue d
      | Some productStore \<Rightarrow>
          if \<not> uBarcodeIndex d
          then (if index_unique ''barcode'' productStore then Continue (d\<lparr>uBarcodeIndex := True\<rparr>)
                else Aborted)
          else Continue d)"

definition block4 :: "upgrade_db \<Rightarrow> outcome" where
  "block4 d = Continue (d\<lparr>uAutoBackup := createIfAbsent Map.empty (uAutoBackup d)\<rparr>)"

text \<open>
  \<^verbatim>\<open>String.prototype.trim\<close> on strings of characters below 256, and \<^verbatim>\<open>Set.prototype.add\<close>
  on a set in insertion order.
\<close>

definition isWhiteSpace :: "char \<Rightarrow> bool" where
  "isWhiteSpace c = ((of_char c :: nat) \<in> {9, 10, 11, 12, 13, 32, 160})"

definition trim :: "string \<Rightarrow> string" where
  "trim s = rev (dropWhile isWhiteSpace (rev (dropWhile isWhiteSpace s)))"

definition Set_add :: "'a \<Rightarrow> 'a list \<Rightarrow> 'a list" where
  "Set_add x xs = (if x \<in> set xs then xs else xs @ [x])"

text \<open>\<^verbatim>\<open>if (p.category) existingCategories.add(p.category.trim())\<close>: a category that is
  truthy and not a string has no method \<^verbatim>\<open>trim\<close>, and the call throws.\<close>

definition addCategoryOf :: "jsval list option \<Rightarrow> obj \<Rightarrow> jsval list option" where
  "addCategoryOf acc p =
     (case acc of
        None \<Rightarrow> None
      | Some existingCategories \<Rightarrow>
          if truthy (p ''category'')
          then (case p ''category'' of
                  Some (JStr s) \<Rightarrow> Some (Set_add (JStr (trim s)) existingCategories)
                | Some (JTime t) \<Rightarrow> Some (Set_add (JTime t) existingCategories)
                | _ \<Rightarrow> None)
          else Some existingCategories)"

definition addCategory :: "obj store option \<Rightarrow> jsval \<Rightarrow> obj store option" where
  "addCategory tx categoryName = Option.bind tx (addChecked ''name'' [''name'' \<mapsto> categoryName])"

text \<open>The callback of \<^verbatim>\<open>productStore.getAll()\<close> in the block for version 5.\<close>

definition populateCategories :: "obj list \<Rightarrow> obj store \<Rightarrow> obj store option" where
  "populateCategories productObjs categoryStore =
     (case foldl addCategoryOf (Some []) productObjs of
        None \<Rightarrow> None
      | Some fromProducts \<Rightarrow>
          foldl addCategory (Some categoryStore)
            (foldl (\<lambda>acc cat. Set_add cat acc) fromProducts
               [JStr ''Makanan'', JStr ''Minuman'', JStr ''Lainnya'']))"

text \<open>
  The requests of the handler are carried out after the handler has returned, in the order
  in which they were made. No later block touches the stores that the callback of an
  earlier block reads or writes, so each callback is modelled in its block.
  \<^verbatim>\<open>transaction.objectStore(name)\<close> throws when the store does not exist.
\<close>

definition block5 :: "upgrade_db \<Rightarrow> outcome" where
  "block5 d =
     (let d1 = d\<lparr>uCategories := createIfAbsent empty_store (uCategories d)\<rparr>
      in case uProducts d1 of
           None \<Rightarrow> Thrown d1
         | Some productStore \<Rightarrow>
             (case Option.bind (uCategories d1) (populateCategories (getAllFromDB productStore)) of
                None \<Rightarrow> Aborted
              | Some categoryStore \<Rightarrow> Continue (d1\<lparr>uCategories := Some categoryStore\<rparr>)))"

definition block6 :: "upgrade_db \<Rightarrow> outcome" where
  "block6 d = Continue (d\<lparr>uSyncQueue := createIfAbsent empty_store (uSyncQueue d)\<rparr>)"

text \<open>
  \<^verbatim>\<open>ppnSetting.value > 0\<close>: a number is compared as it is, \<^verbatim>\<open>true\<close> counts as 1, \<^verbatim>\<open>null\<close>
  and \<^verbatim>\<open>false\<close> as 0, and a missing property and a timestamp string as \<^verbatim>\<open>NaN\<close>; any other
  string is converted to a number, and whether the result is above 0 is an argument of
  the model.
\<close>

definition gt_zero :: "(string \<Rightarrow> bool) \<Rightarrow> jsval option \<Rightarrow> bool" where
  "gt_zero positive v =
     (case v of
        None \<Rightarrow> False
      | Some JNull \<Rightarrow> False
      | Some (JBool b) \<Rightarrow> b
      | Some (JNum n) \<Rightarrow> n > 0
      | Some (JStr s) \<Rightarrow> positive s
      | Some (JTime t) \<Rightarrow> False)"

definition ppnFee :: "timestamp \<Rightarrow> obj \<Rightarrow> obj" where
  "ppnFee now ppnSetting =
     (\<lambda>property.
        if property = ''name'' then Some (JStr ''PPN'')
        else if property = ''type'' then Some (JStr ''percentage'')
        else if property = ''value'' then ppnSetting ''value''
        else if property = ''isDefault'' then Some (JBool True)
        else if property = ''isTax'' then Some (JBool True)
        else if property = ''createdAt'' then Some (JTime now)
        else None)"

text \<open>The block for version 7: the store \<^verbatim>\<open>fees\<close>, and the callback of
  \<^verbatim>\<open>settingsStore.get('storePpn')\<close>.\<close>

definition block7 :: "(string \<Rightarrow> bool) \<Rightarrow> timestamp \<Rightarrow> upgrade_db \<Rightarrow> outcome" where
  "block7 positive now d =
     (let d1 = d\<lparr>uFees := createIfAbsent empty_store (uFees d)\<rparr>
      in case uSettings d1 of
           None \<Rightarrow> Thrown d1
         | Some settingsStore \<Rightarrow>
             (case settingsStore ''storePpn'' of
                None \<Rightarrow> Continue d1
              | Some ppnSetting \<Rightarrow>
                  if gt_zero positive (ppnSetting ''value'')
                  then Continue
                         (d1\<lparr>uFees := map_option (\<lambda>feesStore. putAt (nextKey feesStore)
                                                     (ppnFee now ppnSetting) feesStore) (uFees d1),
                             uSettings := Some (settingsStore(''storePpn'' := None))\<rparr>)
                  else Continue d1))"

text \<open>The handler, and the database after the \<^verbatim>\<open>versionchange\<close> transaction: \<open>None\<close> when
  it was aborted.\<close>

definition onupgradeneeded :: "(string \<Rightarrow> bool) \<Rightarrow> timestamp \<Rightarrow> nat \<Rightarrow> upgrade_db \<Rightarrow> outcome" where
  "onupgradeneeded positive now oldVersion d =
     andThen (andThen (andThen (andThen (andThen (whenOlder oldVersion 2 block2 d)
       (whenOlder oldVersion 3 block3))
       (whenOlder oldVersion 4 block4))
       (whenOlder oldVersion 5 block5))
       (whenOlder oldVersion 6 block6))
       (whenOlder oldVersion 7 (block7 positive now))"

definition committed :: "outcome \<Rightarrow> upgrade_db option" where
  "committed r = (case r of Continue d \<Rightarrow> Some d | Thrown d \<Rightarrow> Some d | Aborted \<Rightarrow> None)"

definition upgrade :: "(string \<Rightarrow> bool) \<Rightarrow> timestamp \<Rightarrow> nat \<Rightarrow> upgrade_db \<Rightarrow> upgrade_db option" where
  "upgrade positive now oldVersion d = committed (onupgradeneeded positive now oldVersion d)"

section \<open>Concrete stores and carts\<close>

text \<open>Three fees: a service charge that was edited after the cart took it, a default tax,
  and a fee that has since been deleted from the store.\<close>

definition service_old :: fee where
  "service_old = \<lparr>fid = 1, fname = ''Service'', ftype = ''fixed'', fvalue = 1000,
                   isDefault = False, isTax = False, fcreatedAt = 0\<rparr>"

definition service_new :: fee where
  "service_new = service_old\<lparr>fvalue := 2000\<rparr>"

definition ppn_fee :: fee where
  "ppn_fee = \<lparr>fid = 2, fname = ''PPN'', ftype = ''percentage'', fvalue = 10,
               isDefault = True, isTax = True, fcreatedAt = 0\<rparr>"

definition deleted_fee :: fee where
  "deleted_fee = \<lparr>fid = 3, fname = ''Bungkus'', ftype = ''fixed'', fvalue = 500,
                   isDefault = False, isTax = False, fcreatedAt = 0\<rparr>"

definition fees_example :: "fee store" where
  "fees_example = \<lparr>recs = [(1, service_new), (2, ppn_fee)], nextKey = 4\<rparr>"

definition cart_example :: cart where
  "cart_example = \<lparr>items = [], fees = [deleted_fee, service_old]\<rparr>"

text \<open>A shop with two products and the fee store above; the cart starts with the default
  fee, as \<^verbatim>\<open>applyDefaultFees\<close> leaves it, and the button of the payment dialog disabled.\<close>

definition kopi :: product where
  "kopi = \<lparr>pid = 1, pname = ''Kopi'', price = 10000, purchasePrice = 6000, stock = 5,
            barcode = None, category = ''Minuman'', discountPercentage = 10, pupdatedAt = 0\<rparr>"

definition teh :: product where
  "teh = \<lparr>pid = 2, pname = ''Teh'', price = 5000, purchasePrice = 3000, stock = 1,
           barcode = None, category = ''Minuman'', discountPercentage = 0, pupdatedAt = 0\<rparr>"

definition shop_example :: app where
  "shop_example =
     \<lparr>db = \<lparr>products = \<lparr>recs = [(1, kopi), (2, teh)], nextKey = 3\<rparr>,
             transactions = empty_store, feeStore = fees_example, sync_queue = empty_store\<rparr>,
      cart = \<lparr>items = [], fees = [ppn_fee]\<rparr>,
      paymentModalOpen = False, cashPaidInput = None, buttonDisabled = True,
      currentReceiptTransaction = None\<rparr>"

text \<open>The cart after two clicks on the first product.\<close>

definition scenario_cart :: cart where
  "scenario_cart = cart (run shop_example [(0, AddToCart 1), (0, AddToCart 1)])"

text \<open>A first sale paid in full, a new transaction, and the payment dialog opened again
  for a second sale, with the cash field left empty.\<close>

definition second_sale :: "(timestamp \<times> event) list" where
  "second_sale =
     [(1, AddToCart 1), (2, ShowPaymentModal), (3, CashInput (Some 10000)), (4, ClickComplete),
      (5, StartNewTransaction), (6, AddToCart 1), (7, ShowPaymentModal)]"

text \<open>The last piece of the second product is put into the cart, the stock of the product
  is then lowered by hand, and the cart is paid.\<close>

definition late_decrease :: "(timestamp \<times> event) list" where
  "late_decrease =
     [(1, AddToCart 2), (2, DecreaseStock 2), (3, ShowPaymentModal), (4, CashInput (Some 5500))]"

text \<open>The stock of the second product is raised by hand after it was put into the cart,
  and the product is clicked again.\<close>

definition late_increase :: "(timestamp \<times> event) list" where
  "late_increase = [(1, AddToCart 2), (2, IncreaseStock 2), (3, AddToCart 2)]"

text \<open>A cart of \<^verbatim>\<open>index.js\<close> with one piece of each product, and a store from which the
  second product has been deleted since.\<close>

definition lines_example :: "cart_line list" where
  "lines_example = [product.extend kopi (cart_line.fields 1), product.extend teh (cart_line.fields 1)]"

definition idb_example :: idb where
  "idb_example = \<lparr>iproducts = \<lparr>recs = [(1, kopi)], nextKey = 3\<rparr>, itransactions = empty_store\<rparr>"

text \<open>The same for the cashier script: the second product is deleted after it was put into
  the cart.\<close>

definition product_vanishes :: "(timestamp \<times> event) list" where
  "product_vanishes =
     [(1, AddToCart 1), (2, AddToCart 2), (3, DeleteProduct 2), (4, ShowPaymentModal),
      (5, CashInput (Some 20000))]"

text \<open>A database for the sync cycle: the three default categories, one product that was
  created locally, and a queue of three entries. The server of \<open>flaky_api\<close> accepts
  everything but product updates.\<close>

definition kopi_obj :: obj where
  "kopi_obj = [''name'' \<mapsto> JStr ''Kopi'', ''price'' \<mapsto> JNum 10000, ''stock'' \<mapsto> JNum 5,
               ''barcode'' \<mapsto> JNull, ''updatedAt'' \<mapsto> JTime 100]"

definition task1 :: task where
  "task1 = \<lparr>taskAction = ''CREATE_PRODUCT'', payloadId = Some 1, taskPayload = kopi_obj,
            taskTimestamp = 100\<rparr>"

definition task2 :: task where
  "task2 = \<lparr>taskAction = ''UPDATE_PRODUCT'', payloadId = Some 1,
            taskPayload = kopi_obj(''stock'' \<mapsto> JNum 4, ''updatedAt'' \<mapsto> JTime 200),
            taskTimestamp = 200\<rparr>"

definition task3 :: task where
  "task3 = \<lparr>taskAction = ''CREATE_FEE'', payloadId = Some 1,
            taskPayload = [''name'' \<mapsto> JStr ''PPN''], taskTimestamp = 300\<rparr>"

definition default_categories :: "obj store" where
  "default_categories =
     \<lparr>recs = [(1, [''name'' \<mapsto> JStr ''Makanan'']), (2, [''name'' \<mapsto> JStr ''Minuman'']),
              (3, [''name'' \<mapsto> JStr ''Lainnya''])],
      nextKey = 4\<rparr>"

definition sync_example :: sync_db where
  "sync_example =
     \<lparr>sProducts = \<lparr>recs = [(1, kopi_obj(''stock'' \<mapsto> JNum 4, ''updatedAt'' \<mapsto> JTime 200))],
                   nextKey = 2\<rparr>,
      sCategories = default_categories,
      sTransactions = empty_store,
      sFees = \<lparr>recs = [(1, [''name'' \<mapsto> JStr ''PPN''])], nextKey = 2\<rparr>,
      sQueue = \<lparr>recs = [(1, task1), (2, task2), (3, task3)], nextKey = 4\<rparr>,
      sSettings = Map.empty\<rparr>"

definition flaky_api :: "task \<Rightarrow> response" where
  "flaky_api t =
     \<lparr>success = (taskAction t \<noteq> ''UPDATE_PRODUCT''), serverId = Some (JStr ''server_1''),
      localId = payloadId t\<rparr>"

text \<open>The data of the mock server in the source: no product, the category
  \<^verbatim>\<open>Lainnya\<close> with the id \<^verbatim>\<open>server_cat_201\<close>, no deletion. Its \<^verbatim>\<open>updatedAt\<close> is the time
  at which the script was loaded.\<close>

definition mockServerData :: serverUpdates where
  "mockServerData =
     \<lparr>suProducts = [],
      suCategories = [[''serverId'' \<mapsto> JStr ''server_cat_201'', ''name'' \<mapsto> JStr ''Lainnya'',
                       ''updatedAt'' \<mapsto> JTime 50]],
      deletedProducts = [], deletedCategories = []\<rparr>"

text \<open>Updates in which the server sends a product and also marks its id as deleted.\<close>

definition sent_and_deleted :: serverUpdates where
  "sent_and_deleted =
     \<lparr>suProducts = [[''serverId'' \<mapsto> JStr ''server_7'', ''name'' \<mapsto> JStr ''Roti'',
                     ''updatedAt'' \<mapsto> JTime 50]],
      suCategories = [],
      deletedProducts = [JStr ''server_7''], deletedCategories = []\<rparr>"

text \<open>A database after earlier cycles: the product and a fourth category are known to the
  server. And updates in order: a newer version of the product, a new product, and the
  deletion of the fourth category.\<close>

definition kopi_synced :: obj where
  "kopi_synced = kopi_obj(''serverId'' \<mapsto> JStr ''server_1'', ''updatedAt'' \<mapsto> JTime 200)"

definition synced_example :: sync_db where
  "synced_example =
     \<lparr>sProducts = \<lparr>recs = [(1, kopi_synced)], nextKey = 2\<rparr>,
      sCategories = \<lparr>recs = recs default_categories @
                              [(4, [''name'' \<mapsto> JStr ''Snack'', ''serverId'' \<mapsto> JStr ''server_cat_5'',
                                    ''updatedAt'' \<mapsto> JTime 10])],
                     nextKey = 5\<rparr>,
      sTransactions = empty_store,
      sFees = empty_store,
      sQueue = empty_store,
      sSettings = [''lastSync'' \<mapsto> JTime 220]\<rparr>"

definition kopi_server :: obj where
  "kopi_server = [''serverId'' \<mapsto> JStr ''server_1'', ''name'' \<mapsto> JStr ''Kopi Susu'',
                  ''price'' \<mapsto> JNum 12000, ''updatedAt'' \<mapsto> JTime 300]"

definition roti_server :: obj where
  "roti_server = [''serverId'' \<mapsto> JStr ''server_8'', ''name'' \<mapsto> JStr ''Roti'',
                  ''barcode'' \<mapsto> JStr ''899'', ''updatedAt'' \<mapsto> JTime 250]"

definition delta_example :: serverUpdates where
  "delta_example =
     \<lparr>suProducts = [kopi_server, roti_server],
      suCategories = [],
      deletedProducts = [], deletedCategories = [JStr ''server_cat_5'']\<rparr>"

text \<open>A database of version 6 whose settings hold a tax of 10 percent, and a new
  database.\<close>

definition v6_example :: upgrade_db where
  "v6_example =
     \<lparr>uProducts = Some \<lparr>recs = [(1, kopi_obj)], nextKey = 2\<rparr>,
      uBarcodeIndex = True,
      uTransactions = Some empty_store,
      uSettings = Some [''storeName'' \<mapsto> [''value'' \<mapsto> JStr ''Toko''],
                        ''storePpn'' \<mapsto> [''value'' \<mapsto> JNum 10]],
      uAutoBackup = Some Map.empty,
      uCategories = Some default_categories,
      uSyncQueue = Some empty_store,
      uFees = None\<rparr>"

definition new_database :: upgrade_db where
  "new_database =
     \<lparr>uProducts = None, uBarcodeIndex = False, uTransactions = None, uSettings = None,
      uAutoBackup = None, uCategories = None, uSyncQueue = None, uFees = None\<rparr>"

section \<open>Object stores and fee reconciliation\<close>

lemma Map_new_foldl:
  "foldl (\<lambda>m kv. m(fst kv \<mapsto> snd kv)) m0 kvs = m0 ++ map_of (rev kvs)"
  by (induction kvs arbitrary: m0) (auto simp: map_add_upd_left fun_eq_iff map_add_def split: option.splits)

lemma Map_new_map_of: "Map_new kvs = map_of (rev kvs)"
  by (simp add: Map_new_def Map_new_foldl)

lemma Map_new_distinct:
  "distinct (map fst kvs) \<Longrightarrow> Map_new kvs = map_of kvs"
  unfolding Map_new_map_of
  by (rule ext) (metis distinct_rev map_of_eq_None_iff map_of_eq_Some_iff not_Some_eq rev_map set_rev)

lemma wf_store_distinct: "wf_store idf st \<Longrightarrow> distinct (map fst (recs st))"
  by (simp add: wf_store_def strict_sorted_iff)

lemma wf_store_id: "wf_store idf st \<Longrightarrow> (k, v) \<in> set (recs st) \<Longrightarrow> idf v = k"
  by (auto simp: wf_store_def list_all_iff)

lemma wf_store_ids: "wf_store idf st \<Longrightarrow> map idf (getAllFromDB st) = map fst (recs st)"
  by (auto simp: getAllFromDB_def wf_store_def list_all_iff)

lemma wf_store_entries:
  "wf_store idf st \<Longrightarrow> map (\<lambda>v. (idf v, v)) (getAllFromDB st) = recs st"
  by (auto simp: getAllFromDB_def wf_store_def list_all_iff intro!: map_idI)

lemma wf_store_Map:
  "wf_store idf st \<Longrightarrow> Map_new (map (\<lambda>v. (idf v, v)) (getAllFromDB st)) = getFromDB st"
  by (simp add: wf_store_entries Map_new_distinct wf_store_distinct getFromDB_def fun_eq_iff)

lemma getFromDB_Some_id: "wf_store idf st \<Longrightarrow> getFromDB st k = Some v \<Longrightarrow> idf v = k"
  by (auto simp: getFromDB_def dest: map_of_SomeD wf_store_id)

lemma getFromDB_member: "getFromDB st k = Some v \<Longrightarrow> v \<in> set (getAllFromDB st)"
  by (force simp: getFromDB_def getAllFromDB_def dest: map_of_SomeD)

lemma getAll_getFromDB:
  "wf_store idf st \<Longrightarrow> v \<in> set (getAllFromDB st) \<Longrightarrow> getFromDB st (idf v) = Some v"
  using wf_store_distinct[of idf st]
  by (auto simp: getFromDB_def getAllFromDB_def dest: wf_store_id)

lemma keep_loop:
  "foldl (keepCartFee M) acc cs =
     (fst acc @ List.map_filter (\<lambda>c. M (fid c)) cs,
      snd acc \<union> {fid c |c. c \<in> set cs \<and> M (fid c) \<noteq> None})"
proof (induction cs arbitrary: acc)
  case Nil
  show ?case by (simp add: List.map_filter_simps)
next
  case (Cons c cs)
  show ?case
  proof (cases "M (fid c)")
    case None
    then have k: "keepCartFee M acc c = acc"
      by (simp add: keepCartFee_def)
    show ?thesis using None by (auto simp: k Cons.IH List.map_filter_simps)
  next
    case (Some f)
    then have k: "keepCartFee M acc c = (fst acc @ [f], insert (fid c) (snd acc))"
      by (simp add: keepCartFee_def)
    show ?thesis using Some by (auto simp: k Cons.IH List.map_filter_simps)
  qed
qed

lemma default_loop:
  "distinct (map fid ds) \<Longrightarrow>
   foldl addDefaultFee acc ds =
     (fst acc @ filter (\<lambda>d. isDefault d \<and> fid d \<notin> snd acc) ds,
      snd acc \<union> {fid d |d. d \<in> set ds \<and> isDefault d})"
proof (induction ds arbitrary: acc)
  case Nil
  show ?case by simp
next
  case (Cons d ds)
  then have dis: "distinct (map fid ds)" and nin: "fid d \<notin> fid ` set ds" by auto
  have *: "filter (\<lambda>x. isDefault x \<and> fid x \<noteq> fid d \<and> fid x \<notin> A) ds
         = filter (\<lambda>x. isDefault x \<and> fid x \<notin> A) ds" for A
    using nin by (intro filter_cong) (auto simp: image_iff)
  show ?case
  proof (cases "isDefault d \<and> fid d \<notin> snd acc")
    case True
    then have k: "addDefaultFee acc d = (fst acc @ [d], insert (fid d) (snd acc))"
      by (simp add: addDefaultFee_def)
    show ?thesis using True by (auto simp: k Cons.IH[OF dis] *)
  next
    case False
    then have k: "addDefaultFee acc d = acc"
      by (auto simp: addDefaultFee_def)
    show ?thesis using False by (auto simp: k Cons.IH[OF dis])
  qed
qed

lemma reconcile_closed:
  assumes "wf_store fid st"
  shows "fees (reconcileCartFees st c) =
     List.map_filter (\<lambda>c. getFromDB st (fid c)) (fees c) @
     filter (\<lambda>d. isDefault d \<and> fid d \<notin> {fid x |x. x \<in> set (fees c) \<and> getFromDB st (fid x) \<noteq> None})
       (getAllFromDB st)"
  using assms wf_store_distinct[OF assms]
  by (simp add: reconcileCartFees_def Let_def wf_store_Map keep_loop default_loop wf_store_ids)

lemma filter_distinct_key:
  "distinct (map g xs) \<Longrightarrow> x \<in> set xs \<Longrightarrow> filter (\<lambda>y. g y = g x) xs = [x]"
proof (induction xs)
  case Nil
  then show ?case by simp
next
  case (Cons a xs)
  show ?case
  proof (cases "a = x")
    case True
    have "filter (\<lambda>y. g y = g x) xs = []"
      using Cons.prems(1) True by (auto simp: filter_empty_conv image_iff)
    then show ?thesis using True by simp
  next
    case False
    then have "x \<in> set xs" using Cons.prems by simp
    moreover have "g a \<noteq> g x" using Cons.prems(1) \<open>x \<in> set xs\<close> by (auto simp: image_iff)
    ultimately show ?thesis using Cons by simp
  qed
qed

lemma map_filter_ids:
  assumes "wf_store fid st"
  shows "map fid (List.map_filter (\<lambda>c. getFromDB st (fid c)) cs) =
         filter (\<lambda>k. getFromDB st k \<noteq> None) (map fid cs)"
proof (induction cs)
  case Nil
  show ?case by (simp add: List.map_filter_simps)
next
  case (Cons c cs)
  show ?case
    using Cons getFromDB_Some_id[OF assms]
    by (cases "getFromDB st (fid c)") (auto simp: List.map_filter_simps)
qed

lemma map_filter_fixed:
  "list_all (\<lambda>f. g f = Some f) xs \<Longrightarrow> List.map_filter g xs = xs"
  by (induction xs) (auto simp: List.map_filter_simps)

lemma reconcile_members:
  assumes wf: "wf_store fid st"
  shows "list_all (\<lambda>f. getFromDB st (fid f) = Some f) (fees (reconcileCartFees st c))"
proof -
  have "getFromDB st (fid f) = Some f"
    if "f \<in> set (List.map_filter (\<lambda>c. getFromDB st (fid c)) (fees c))" for f
  proof -
    from that obtain x :: fee where "getFromDB st (fid x) = Some f"
      by (auto simp: List.map_filter_def)
    then show ?thesis using getFromDB_Some_id[OF wf] by fastforce
  qed
  then show ?thesis
    using getAll_getFromDB[OF wf]
    by (auto simp: reconcile_closed[OF wf] list_all_iff)
qed

lemma reconcile_distinct:
  assumes wf: "wf_store fid st" and dc: "distinct (map fid (fees c))"
  shows "distinct (map fid (fees (reconcileCartFees st c)))"
proof -
  let ?A = "List.map_filter (\<lambda>c. getFromDB st (fid c)) (fees c)"
  let ?S = "{fid x |x. x \<in> set (fees c) \<and> getFromDB st (fid x) \<noteq> None}"
  let ?B = "filter (\<lambda>d. isDefault d \<and> fid d \<notin> ?S) (getAllFromDB st)"
  have A: "distinct (map fid ?A)"
    by (simp add: map_filter_ids[OF wf] dc)
  have "distinct (map fid (getAllFromDB st))"
    using wf by (simp add: wf_store_ids wf_store_distinct)
  then have B: "distinct (map fid ?B)"
    by (simp add: distinct_map_filter)
  have "set (map fid ?A) = ?S"
    by (auto simp: map_filter_ids[OF wf])
  then have "set (map fid ?A) \<inter> set (map fid ?B) = {}"
    by auto
  then show ?thesis
    using A B by (simp add: reconcile_closed[OF wf])
qed

lemma reconcile_idem:
  assumes wf: "wf_store fid st"
  shows "reconcileCartFees st (reconcileCartFees st c) = reconcileCartFees st c"
proof -
  let ?r = "fees (reconcileCartFees st c)"
  have mem: "list_all (\<lambda>f. getFromDB st (fid f) = Some f) ?r"
    by (rule reconcile_members[OF wf])
  have fixd: "List.map_filter (\<lambda>c. getFromDB st (fid c)) ?r = ?r"
    by (rule map_filter_fixed[OF mem])
  have S: "{fid x |x. x \<in> set ?r \<and> getFromDB st (fid x) \<noteq> None} = fid ` set ?r"
    using mem by (auto simp: list_all_iff)
  have "fid d \<in> fid ` set ?r" if "d \<in> set (getAllFromDB st)" "isDefault d" for d
  proof (cases "fid d \<in> {fid x |x. x \<in> set (fees c) \<and> getFromDB st (fid x) \<noteq> None}")
    case True
    then have "fid d \<in> set (map fid (List.map_filter (\<lambda>c. getFromDB st (fid c)) (fees c)))"
      by (auto simp: map_filter_ids[OF wf])
    then show ?thesis by (auto simp: reconcile_closed[OF wf])
  next
    case False
    then have "d \<in> set ?r" using that by (simp add: reconcile_closed[OF wf])
    then show ?thesis by simp
  qed
  then have nil: "filter (\<lambda>d. isDefault d \<and> fid d \<notin> fid ` set ?r) (getAllFromDB st) = []"
    by (auto simp: filter_empty_conv)
  have "fees (reconcileCartFees st (reconcileCartFees st c)) = ?r"
    by (simp only: reconcile_closed[OF wf, of "reconcileCartFees st c"] fixd S nil append_Nil2)
  then show ?thesis
    by (simp add: reconcileCartFees_def Let_def)
qed

lemma cart_fee_ids_distinct:
  assumes wf: "wf_store fid st"
  shows "distinct (map fid (fees (applyDefaultFees st c))) \<and>
         distinct (map fid (fees (applySelectedFees st sel c))) \<and>
         (distinct (map fid (fees c)) \<longrightarrow> distinct (map fid (fees (reconcileCartFees st c))))"
proof -
  have "distinct (map fid (getAllFromDB st))"
    using wf by (simp add: wf_store_ids wf_store_distinct)
  then show ?thesis
    using reconcile_distinct[OF wf]
    by (simp add: applyDefaultFees_def applySelectedFees_def distinct_map_filter)
qed

text \<open>
  Claim C9. Let the cart hold a fee \<open>F\<close> that the fee store still has (as \<open>F'\<close>, its
  latest stored version), and let the store hold a default fee \<open>D\<close> whose id is not in the
  cart. Then \<^verbatim>\<open>reconcileCartFees\<close> yields a fee list in which \<open>F\<close>'s id occurs exactly once,
  carrying \<open>F'\<close>, and \<open>D\<close> occurs exactly once; every fee of the result is the store's
  current record of its id, so a fee deleted from the store is dropped; and reconciling
  again changes nothing. The fee ids of a cart are distinct: \<^verbatim>\<open>applyDefaultFees\<close> and
  \<^verbatim>\<open>applySelectedFees\<close> filter the store's records, and \<^verbatim>\<open>reconcileCartFees\<close> keeps them
  distinct (\<open>cart_fee_ids_distinct\<close>).
\<close>

theorem reconcileCartFees_spec:
  assumes wf: "wf_store fid st"
      and dc: "distinct (map fid (fees c))"
      and F: "F \<in> set (fees c)" "getFromDB st (fid F) = Some F'"
      and D: "D \<in> set (getAllFromDB st)" "isDefault D" "fid D \<notin> fid ` set (fees c)"
  shows "filter (\<lambda>f. fid f = fid F) (fees (reconcileCartFees st c)) = [F'] \<and>
         filter (\<lambda>f. fid f = fid D) (fees (reconcileCartFees st c)) = [D] \<and>
         list_all (\<lambda>f. getFromDB st (fid f) = Some f) (fees (reconcileCartFees st c)) \<and>
         reconcileCartFees st (reconcileCartFees st c) = reconcileCartFees st c"
proof -
  let ?r = "fees (reconcileCartFees st c)"
  have dr: "distinct (map fid ?r)"
    by (rule reconcile_distinct[OF wf dc])
  have idF: "fid F' = fid F"
    using getFromDB_Some_id[OF wf F(2)] .
  have "F' \<in> set (List.map_filter (\<lambda>c. getFromDB st (fid c)) (fees c))"
    using F by (force simp: List.map_filter_def)
  then have F'r: "F' \<in> set ?r"
    by (simp add: reconcile_closed[OF wf])
  have "fid D \<notin> {fid x |x. x \<in> set (fees c) \<and> getFromDB st (fid x) \<noteq> None}"
    using D(3) by auto
  then have Dr: "D \<in> set ?r"
    using D(1,2) by (simp add: reconcile_closed[OF wf])
  show ?thesis
    using filter_distinct_key[OF dr F'r] filter_distinct_key[OF dr Dr] idF
      reconcile_members[OF wf, of c] reconcile_idem[OF wf, of c]
    by simp
qed

lemmas fee_examples = service_old_def service_new_def ppn_fee_def deleted_fee_def
  fees_example_def cart_example_def

theorem reconcileCartFees_witness:
  "wf_store fid fees_example \<and> distinct (map fid (fees cart_example)) \<and>
   service_old \<in> set (fees cart_example) \<and>
   getFromDB fees_example (fid service_old) = Some service_new \<and>
   ppn_fee \<in> set (getAllFromDB fees_example) \<and> isDefault ppn_fee \<and>
   fid ppn_fee \<notin> fid ` set (fees cart_example) \<and>
   filter (\<lambda>f. fid f = fid service_old) (fees (reconcileCartFees fees_example cart_example)) = [service_new] \<and>
   filter (\<lambda>f. fid f = fid ppn_fee) (fees (reconcileCartFees fees_example cart_example)) = [ppn_fee] \<and>
   list_all (\<lambda>f. getFromDB fees_example (fid f) = Some f) (fees (reconcileCartFees fees_example cart_example)) \<and>
   reconcileCartFees fees_example (reconcileCartFees fees_example cart_example) =
     reconcileCartFees fees_example cart_example"
proof -
  have h1: "wf_store fid fees_example"
    by (simp add: fee_examples wf_store_def)
  have h2: "distinct (map fid (fees cart_example))"
    by (simp add: fee_examples)
  have h3: "service_old \<in> set (fees cart_example)"
    by (simp add: fee_examples)
  have h4: "getFromDB fees_example (fid service_old) = Some service_new"
    by (simp add: fee_examples getFromDB_def)
  have h5: "ppn_fee \<in> set (getAllFromDB fees_example)"
    by (simp add: fee_examples getAllFromDB_def)
  have h6: "isDefault ppn_fee"
    by (simp add: fee_examples)
  have h7: "fid ppn_fee \<notin> fid ` set (fees cart_example)"
    by (simp add: fee_examples)
  from reconcileCartFees_spec[OF h1 h2 h3 h4 h5 h6 h7] h1 h2 h3 h4 h5 h6 h7
  show ?thesis by blast
qed

lemmas shop_examples = kopi_def teh_def shop_example_def fee_examples empty_store_def

lemmas eval_defs = run_def addToCart_def updateCartItemQuantity_def getFromDB_def getAllFromDB_def
  newCartItem_def increaseStock_def decreaseStock_def queueSyncAction_def putNew_def putAt_def
  showPaymentModal_def cashPaidInputHandler_def paymentTotal_def cartSubtotal_def feeAmountOn_def
  completeTransaction_def buildTransaction_def checkoutSubtotal_def checkoutDiscount_def
  checkoutFees_def snapshotItem_def updateStockFor_def startNewTransaction_def applyDefaultFees_def
  updateCartDisplay_def clearCart_def deleteProduct_def deleteFromDB_def Let_def

section \<open>Totals of the cart and of the checkout\<close>

lemma foldl_plus: "foldl (\<lambda>sum x. sum + g x) a xs = a + sum_list (map g xs)"
  for a :: rat
  by (induction xs arbitrary: a) (simp_all add: add.assoc)

lemma foldl_amounts:
  "foldl (\<lambda>acc f. (fst acc + g f, snd acc @ [g f])) acc fs =
     (fst acc + sum_list (map g fs), snd acc @ map g fs)"
  for acc :: "rat \<times> rat list"
  by (induction fs arbitrary: acc) (simp_all add: add.assoc)

lemma foldl_applied:
  "foldl (\<lambda>acc f. (fst acc @ [h f], snd acc + g f)) acc fs =
     (fst acc @ map h fs, snd acc + sum_list (map g fs))"
  for acc :: "'b list \<times> rat"
  by (induction fs arbitrary: acc) (simp_all add: add.assoc)

lemma discounted_sum:
  fixes xs :: "cart_item list"
  assumes "list_all (\<lambda>i. effectivePrice i = iprice i * (1 - idiscountPercentage i / 100)) xs"
  shows "(\<Sum>i\<leftarrow>xs. effectivePrice i * of_int (quantity i)) =
      (\<Sum>i\<leftarrow>xs. iprice i * of_int (quantity i))
      - (\<Sum>i\<leftarrow>xs. iprice i * (idiscountPercentage i / 100) * of_int (quantity i))"
  using assms
proof (induction xs)
  case Nil
  show ?case by simp
next
  case (Cons a xs)
  then have ea: "effectivePrice a = iprice a * (1 - idiscountPercentage a / 100)"
    and rest: "list_all (\<lambda>i. effectivePrice i = iprice i * (1 - idiscountPercentage i / 100)) xs"
    by simp_all
  have "effectivePrice a * of_int (quantity a) =
      iprice a * of_int (quantity a) - iprice a * (idiscountPercentage a / 100) * of_int (quantity a)"
    by (simp add: ea algebra_simps)
  then show ?case
    using Cons.IH[OF rest] by simp
qed

text \<open>
  Claim C3, as amended. The claim's single formula fits neither computation: its subtotal
  is that of the display, its fee base and total are those of the checkout, and together
  they subtract the discount twice. What the code computes, for every cart:
  the cart display and the payment dialog show subtotal = \<open>\<Sum>\<close> effectivePrice \<open>\<times>\<close> quantity,
  for each fee the amount subtotal \<open>\<times>\<close> (value / 100) when its type is percentage and value
  otherwise, and total = subtotal + \<open>\<Sum>\<close> fee amounts; the checkout persists
  subtotal = \<open>\<Sum>\<close> unitPrice \<open>\<times>\<close> quantity, totalDiscount =
  \<open>\<Sum>\<close> unitPrice \<open>\<times>\<close> (discountPct / 100) \<open>\<times>\<close> quantity, for each fee the amount
  (subtotal - totalDiscount) \<open>\<times>\<close> (value / 100) when its type is percentage and value
  otherwise, and total = subtotal - totalDiscount + \<open>\<Sum>\<close> fee amounts. Nothing is said
  here about the displayed and the persisted total being equal.
\<close>

theorem totals_formulas:
  fixes c :: cart
  defines "shown \<equiv> updateCartDisplay c"
  shows "shownSubtotal shown = (\<Sum>i\<leftarrow>items c. effectivePrice i * of_int (quantity i)) \<and>
     shownFeeAmounts shown =
       map (\<lambda>f. if ftype f = ''percentage'' then shownSubtotal shown * (fvalue f / 100)
                 else fvalue f) (fees c) \<and>
     shownTotal shown = shownSubtotal shown + sum_list (shownFeeAmounts shown) \<and>
     paymentTotal c = shownTotal shown \<and>
     subtotal (buildTransaction now cash c k) = (\<Sum>i\<leftarrow>items c. iprice i * of_int (quantity i)) \<and>
     totalDiscount (buildTransaction now cash c k) =
       (\<Sum>i\<leftarrow>items c. iprice i * (idiscountPercentage i / 100) * of_int (quantity i)) \<and>
     tfees (buildTransaction now cash c k) =
       map (\<lambda>f. \<lparr>afee = f,
                  amount = (if ftype f = ''percentage''
                            then (subtotal (buildTransaction now cash c k)
                                    - totalDiscount (buildTransaction now cash c k)) * (fvalue f / 100)
                            else fvalue f)\<rparr>) (fees c) \<and>
     total (buildTransaction now cash c k) =
       subtotal (buildTransaction now cash c k) - totalDiscount (buildTransaction now cash c k)
         + sum_list (map amount (tfees (buildTransaction now cash c k)))"
proof -
  have amt: "map amount (map (\<lambda>f. \<lparr>afee = f, amount = g f\<rparr>) fs) = map g fs" for g and fs :: "fee list"
    by (simp add: comp_def)
  have fa: "feeAmountOn base = (\<lambda>f. if ftype f = ''percentage'' then base * (fvalue f / 100) else fvalue f)"
    for base
    by (rule ext) (simp add: feeAmountOn_def)
  have d1: "shownSubtotal shown = (\<Sum>i\<leftarrow>items c. effectivePrice i * of_int (quantity i))"
    unfolding shown_def by (simp add: updateCartDisplay_def Let_def cartSubtotal_def foldl_plus)
  have d2: "shownFeeAmounts shown = map (feeAmountOn (shownSubtotal shown)) (fees c)"
    unfolding shown_def by (simp add: updateCartDisplay_def Let_def foldl_amounts)
  have d3: "shownTotal shown = shownSubtotal shown + sum_list (shownFeeAmounts shown)"
    unfolding shown_def by (simp add: updateCartDisplay_def Let_def foldl_amounts)
  have d4: "paymentTotal c = shownTotal shown"
    unfolding shown_def by (simp add: updateCartDisplay_def paymentTotal_def Let_def foldl_amounts foldl_plus)
  have p1: "subtotal (buildTransaction now cash c k) = (\<Sum>i\<leftarrow>items c. iprice i * of_int (quantity i))"
    by (simp add: buildTransaction_def Let_def checkoutSubtotal_def foldl_plus)
  have p2: "totalDiscount (buildTransaction now cash c k) =
       (\<Sum>i\<leftarrow>items c. iprice i * (idiscountPercentage i / 100) * of_int (quantity i))"
    by (simp add: buildTransaction_def Let_def checkoutDiscount_def foldl_plus)
  have p3: "tfees (buildTransaction now cash c k) =
       map (\<lambda>f. \<lparr>afee = f, amount = feeAmountOn (subtotal (buildTransaction now cash c k)
                                              - totalDiscount (buildTransaction now cash c k)) f\<rparr>) (fees c)"
    by (simp add: buildTransaction_def Let_def checkoutFees_def foldl_applied)
  have p4: "total (buildTransaction now cash c k) =
       subtotal (buildTransaction now cash c k) - totalDiscount (buildTransaction now cash c k)
         + sum_list (map amount (tfees (buildTransaction now cash c k)))"
    by (simp add: buildTransaction_def Let_def checkoutFees_def foldl_applied amt comp_def)
  show ?thesis
    using d1 d2 d3 d4 p1 p2 p3 p4 unfolding fa by (intro conjI)
qed


lemma scenario_cart_eval:
  "scenario_cart =
     \<lparr>items = [\<lparr>iid = 1, iname = ''Kopi'', iprice = 10000, effectivePrice = 9000,
                idiscountPercentage = 10, quantity = 2, istock = 5\<rparr>],
      fees = [ppn_fee]\<rparr>"
  by (simp add: scenario_cart_def shop_examples eval_defs)

text \<open>The cart of the scenario with the percentage fee and a fixed fee.\<close>

theorem totals_formulas_witness:
  "shownSubtotal (updateCartDisplay (scenario_cart\<lparr>fees := [ppn_fee, service_new]\<rparr>)) = 18000 \<and>
   shownFeeAmounts (updateCartDisplay (scenario_cart\<lparr>fees := [ppn_fee, service_new]\<rparr>)) = [1800, 2000] \<and>
   shownTotal (updateCartDisplay (scenario_cart\<lparr>fees := [ppn_fee, service_new]\<rparr>)) = 21800 \<and>
   paymentTotal (scenario_cart\<lparr>fees := [ppn_fee, service_new]\<rparr>) = 21800 \<and>
   subtotal (buildTransaction 0 (Some 22000) (scenario_cart\<lparr>fees := [ppn_fee, service_new]\<rparr>) 1) = 20000 \<and>
   totalDiscount (buildTransaction 0 (Some 22000) (scenario_cart\<lparr>fees := [ppn_fee, service_new]\<rparr>) 1) = 2000 \<and>
   map amount (tfees (buildTransaction 0 (Some 22000) (scenario_cart\<lparr>fees := [ppn_fee, service_new]\<rparr>) 1)) =
     [1800, 2000] \<and>
   total (buildTransaction 0 (Some 22000) (scenario_cart\<lparr>fees := [ppn_fee, service_new]\<rparr>) 1) = 21800"
  using totals_formulas[of "scenario_cart\<lparr>fees := [ppn_fee, service_new]\<rparr>" 0 "Some 22000" 1]
  by (simp add: scenario_cart_eval ppn_fee_def service_new_def service_old_def)

text \<open>
  The claim as stated fails on the scenario of the specification (price 10000, discount
  10 percent, quantity 2, a fee of 10 percent): the persisted subtotal is 20000, not
  \<open>\<Sum>\<close> effectivePrice \<open>\<times>\<close> quantity = 18000; the displayed fee is 1800, not
  (18000 - 2000) \<open>\<times>\<close> 10 / 100 = 1600; and the total is 19800, not 18000 - 2000 + 1600.
\<close>

theorem totals_counterexample:
  "fees scenario_cart = [ppn_fee] \<and> ftype ppn_fee = ''percentage'' \<and> fvalue ppn_fee = 10 \<and>
   (\<Sum>i\<leftarrow>items scenario_cart. effectivePrice i * of_int (quantity i)) = 18000 \<and>
   (\<Sum>i\<leftarrow>items scenario_cart. iprice i * (idiscountPercentage i / 100) * of_int (quantity i)) = 2000 \<and>
   subtotal (buildTransaction 0 (Some 20000) scenario_cart 1) = 20000 \<and>
   subtotal (buildTransaction 0 (Some 20000) scenario_cart 1) \<noteq>
     (\<Sum>i\<leftarrow>items scenario_cart. effectivePrice i * of_int (quantity i)) \<and>
   shownFeeAmounts (updateCartDisplay scenario_cart) = [1800] \<and>
   shownFeeAmounts (updateCartDisplay scenario_cart) \<noteq> [(18000 - 2000) * (10 / 100)] \<and>
   total (buildTransaction 0 (Some 20000) scenario_cart 1) = 19800 \<and>
   total (buildTransaction 0 (Some 20000) scenario_cart 1) \<noteq>
     18000 - 2000 + (18000 - 2000) * (10 / 100)"
  by (simp add: scenario_cart_eval ppn_fee_def eval_defs)

section \<open>Checkout\<close>

lemma map_of_upsert: "map_of (upsert k v xs) = (map_of xs)(k \<mapsto> v)"
  by (induction xs) (auto simp: fun_eq_iff)

lemma getFromDB_putAt: "getFromDB (putAt k v st) k' = (if k' = k then Some v else getFromDB st k')"
  by (simp add: getFromDB_def putAt_def map_of_upsert)

lemma getFromDB_putNew:
  "getFromDB (snd (putNew mk st)) k' = (if k' = nextKey st then Some (mk (nextKey st)) else getFromDB st k')"
  by (simp add: putNew_def getFromDB_putAt)

lemma queueSyncAction_others [simp]:
  "products (queueSyncAction now a p d) = products d"
  "transactions (queueSyncAction now a p d) = transactions d"
  "feeStore (queueSyncAction now a p d) = feeStore d"
  by (simp_all add: queueSyncAction_def)

lemma updateStockFor_transactions [simp]:
  "transactions (updateStockFor now d item) = transactions d"
  by (simp add: updateStockFor_def Let_def split: option.splits)

lemma foldl_updateStockFor_transactions [simp]:
  "transactions (foldl (updateStockFor now) d xs) = transactions d"
  by (induction xs arbitrary: d) simp_all

text \<open>
  Claim C7 (the code departs from it). \<^verbatim>\<open>completeTransaction\<close> checks neither the cart nor
  the cash: whatever the cart holds and whatever the cash field holds, it writes the
  transaction built from them into the store, with the cash read as 0 when the field does
  not parse. The only guards are in the user interface: \<^verbatim>\<open>showPaymentModal\<close> refuses an
  empty cart, and the handler of the cash field disables the button while the change is
  negative. The \<^verbatim>\<open>finally\<close> block of \<^verbatim>\<open>completeTransaction\<close> enables the button again and
  \<^verbatim>\<open>showPaymentModal\<close> clears the cash field without running the handler, so after one
  paid sale the button of the next sale is enabled over an empty cash field.
\<close>

theorem completeTransaction_unvalidated:
  "getFromDB (transactions (db (completeTransaction now s))) (nextKey (transactions (db s))) =
     Some (buildTransaction now (cashPaidInput s) (cart s) (nextKey (transactions (db s)))) \<and>
   cashPaid (buildTransaction now (cashPaidInput s) (cart s) (nextKey (transactions (db s)))) =
     (case cashPaidInput s of None \<Rightarrow> 0 | Some v \<Rightarrow> v) \<and>
   titems (buildTransaction now (cashPaidInput s) (cart s) (nextKey (transactions (db s)))) =
     map snapshotItem (items (cart s))"
  by (simp add: completeTransaction_def Let_def getFromDB_putNew buildTransaction_def)

lemma second_sale_eval:
  "paymentModalOpen (run shop_example second_sale) \<and>
   \<not> buttonDisabled (run shop_example second_sale) \<and>
   cashPaidInput (run shop_example second_sale) = None \<and>
   nextKey (transactions (db (run shop_example second_sale))) = 2 \<and>
   cart (run shop_example second_sale) =
     \<lparr>items = [\<lparr>iid = 1, iname = ''Kopi'', iprice = 10000, effectivePrice = 9000,
                idiscountPercentage = 10, quantity = 1, istock = 4\<rparr>],
      fees = [ppn_fee]\<rparr>"
  by (simp add: second_sale_def shop_examples eval_defs)

text \<open>The second sale of \<open>second_sale\<close> is committed with cash 0 against a total of
  9900.\<close>

theorem completeTransaction_unvalidated_witness:
  "getFromDB (transactions (db (run shop_example (second_sale @ [(8, ClickComplete)])))) 2 =
     Some (buildTransaction 8 None (cart (run shop_example second_sale)) 2) \<and>
   cashPaid (buildTransaction 8 None (cart (run shop_example second_sale)) 2) = 0 \<and>
   total (buildTransaction 8 None (cart (run shop_example second_sale)) 2) = 9900"
proof -
  have "run shop_example (second_sale @ [(8, ClickComplete)]) =
        completeTransaction 8 (run shop_example second_sale)"
    using second_sale_eval by (simp add: run_def)
  then show ?thesis
    using completeTransaction_unvalidated[of 8 "run shop_example second_sale"] second_sale_eval
    by (simp add: buildTransaction_def checkoutSubtotal_def checkoutDiscount_def checkoutFees_def
        feeAmountOn_def ppn_fee_def)
qed

lemma find_key_None: "g x \<notin> g ` set xs \<Longrightarrow> find (\<lambda>i. g i = g x) xs = None"
  by (induction xs) auto

lemma updateStockFor_get:
  assumes "\<And>k v. getFromDB (products d) k = Some v \<Longrightarrow> pid v = k"
  shows "getFromDB (products (updateStockFor now d item)) k =
     (if k = iid item
      then map_option (\<lambda>p. p\<lparr>stock := stock p - quantity item, pupdatedAt := now\<rparr>)
             (getFromDB (products d) k)
      else getFromDB (products d) k)"
  using assms
  by (auto simp: updateStockFor_def Let_def getFromDB_putAt split: option.splits)

lemma foldl_updateStockFor_get:
  assumes "\<And>k v. getFromDB (products d) k = Some v \<Longrightarrow> pid v = k"
      and "distinct (map iid xs)"
  shows "getFromDB (products (foldl (updateStockFor now) d xs)) k =
     (case find (\<lambda>i. iid i = k) xs of
        None \<Rightarrow> getFromDB (products d) k
      | Some item \<Rightarrow>
          map_option (\<lambda>p. p\<lparr>stock := stock p - quantity item, pupdatedAt := now\<rparr>)
            (getFromDB (products d) k))"
  using assms
proof (induction xs arbitrary: d)
  case Nil
  show ?case by simp
next
  case (Cons x xs)
  have keyed: "pid v = k'" if "getFromDB (products (updateStockFor now d x)) k' = Some v" for k' v
    using that Cons.prems(1) by (auto simp: updateStockFor_get[OF Cons.prems(1)] split: if_splits)
  have dis: "distinct (map iid xs)" and nin: "iid x \<notin> iid ` set xs"
    using Cons.prems(2) by auto
  have none: "find (\<lambda>i. iid i = iid x) xs = None"
    using nin by (rule find_key_None)
  show ?case
    using Cons.IH[of "updateStockFor now d x", OF keyed dis] none
    by (auto simp: updateStockFor_get[OF Cons.prems(1)] split: option.splits)
qed

lemma find_distinct_member:
  "distinct (map g xs) \<Longrightarrow> x \<in> set xs \<Longrightarrow> find (\<lambda>i. g i = g x) xs = Some x"
  by (induction xs) (auto simp: image_iff)

text \<open>
  Claim C2 (the code departs from it). The stock update of \<^verbatim>\<open>completeTransaction\<close> subtracts
  the quantity of each line from the product's stored stock without comparing them: for
  every line of the cart whose product exists, the stock after the checkout is the stored
  stock before it minus the quantity, whatever its sign. \<^verbatim>\<open>decreaseStock\<close> has the guard
  (\<^verbatim>\<open>if (product.stock <= 0) return\<close>, "a safeguard") that the checkout lacks. The
  quantity was bounded when the line was put into the cart, against the stock of that
  moment; a manual decrease in between is not seen.
\<close>

theorem checkout_ignores_stored_stock:
  assumes wf: "wf_store pid (products (db s))"
      and dis: "distinct (map iid (items (cart s)))"
      and item: "item \<in> set (items (cart s))"
      and p: "getFromDB (products (db s)) (iid item) = Some p"
  shows "map_option stock (getFromDB (products (db (completeTransaction now s))) (iid item)) =
           Some (stock p - quantity item)"
proof -
  let ?d1 = "queueSyncAction now ''CREATE_TRANSACTION''
      (PTransaction (buildTransaction now (cashPaidInput s) (cart s) (nextKey (transactions (db s)))))
      ((db s)\<lparr>transactions := snd (putNew (buildTransaction now (cashPaidInput s) (cart s)) (transactions (db s)))\<rparr>)"
  have prod: "products ?d1 = products (db s)"
    by simp
  have keyed: "pid v = k" if "getFromDB (products ?d1) k = Some v" for k v
    using that getFromDB_Some_id[OF wf] by (simp only: prod)
  have "getFromDB (products (foldl (updateStockFor now) ?d1 (items (cart s)))) (iid item) =
        Some (p\<lparr>stock := stock p - quantity item, pupdatedAt := now\<rparr>)"
    using foldl_updateStockFor_get[where d = ?d1 and now = now and k = "iid item", OF keyed dis]
      find_distinct_member[OF dis item] p
    by (simp add: prod)
  then show ?thesis
    by (simp add: completeTransaction_def Let_def putNew_def)
qed

lemma late_decrease_eval:
  "paymentModalOpen (run shop_example late_decrease) \<and>
   \<not> buttonDisabled (run shop_example late_decrease) \<and>
   items (cart (run shop_example late_decrease)) =
     [\<lparr>iid = 2, iname = ''Teh'', iprice = 5000, effectivePrice = 5000,
       idiscountPercentage = 0, quantity = 1, istock = 1\<rparr>] \<and>
   recs (products (db (run shop_example late_decrease))) =
     [(1, kopi), (2, teh\<lparr>stock := 0, pupdatedAt := 2\<rparr>)] \<and>
   nextKey (products (db (run shop_example late_decrease))) = 3"
  by (simp add: late_decrease_def shop_examples eval_defs)

text \<open>After \<open>late_decrease\<close> the product has stock 0 and the cart one piece of it; the
  checkout leaves the stock at -1.\<close>

theorem checkout_ignores_stored_stock_witness:
  "wf_store pid (products (db (run shop_example late_decrease))) \<and>
   distinct (map iid (items (cart (run shop_example late_decrease)))) \<and>
   getFromDB (products (db (run shop_example late_decrease))) 2 = Some (teh\<lparr>stock := 0, pupdatedAt := 2\<rparr>) \<and>
   map_option stock
     (getFromDB (products (db (run shop_example (late_decrease @ [(5, ClickComplete)])))) 2) = Some (- 1)"
proof -
  let ?s = "run shop_example late_decrease"
  let ?item = "\<lparr>iid = 2, iname = ''Teh'', iprice = 5000, effectivePrice = 5000,
       idiscountPercentage = 0, quantity = 1, istock = 1\<rparr>"
  have h1: "wf_store pid (products (db ?s))"
    using late_decrease_eval by (simp add: wf_store_def kopi_def teh_def)
  have h2: "distinct (map iid (items (cart ?s)))"
    using late_decrease_eval by simp
  have h3: "?item \<in> set (items (cart ?s))"
    using late_decrease_eval by simp
  have h4: "getFromDB (products (db ?s)) (iid ?item) = Some (teh\<lparr>stock := 0, pupdatedAt := 2\<rparr>)"
    using late_decrease_eval by (simp add: getFromDB_def)
  have "run shop_example (late_decrease @ [(5, ClickComplete)]) = completeTransaction 5 ?s"
    using late_decrease_eval by (simp add: run_def)
  then show ?thesis
    using checkout_ignores_stored_stock[OF h1 h2 h3 h4, of 5] h1 h2 h4
    by simp
qed

section \<open>Quantities of the cart\<close>

lemma update_first_found:
  "find Q xs = Some y \<Longrightarrow> list_all P xs \<Longrightarrow> P (f y) \<Longrightarrow> list_all P (update_first Q f xs)"
  by (induction xs) (auto split: if_splits)

lemma applyDefaultFees_items [simp]: "items (applyDefaultFees st c) = items c"
  by (simp add: applyDefaultFees_def)

lemma addToCart_positive:
  "quantity_positive (cart s) \<Longrightarrow> quantity_positive (cart (addToCart i s))"
proof -
  assume a: "quantity_positive (cart s)"
  show ?thesis
  proof (cases "getFromDB (products (db s)) i")
    case None
    then show ?thesis using a by (simp add: addToCart_def)
  next
    case (Some p)
    show ?thesis
    proof (cases "find (\<lambda>x. iid x = i) (items (cart s))")
      case None
      then show ?thesis
        using a Some by (simp add: addToCart_def quantity_positive_def newCartItem_def Let_def)
    next
      case (Some y)
      have "y \<in> set (items (cart s))"
        using Some by (auto simp: find_Some_iff)
      then have "1 \<le> quantity y"
        using a by (auto simp: quantity_positive_def list_all_iff)
      then have "list_all (\<lambda>x. 1 \<le> quantity x)
          (update_first (\<lambda>x. iid x = i) (\<lambda>x. x\<lparr>quantity := quantity x + 1\<rparr>) (items (cart s)))"
        using a by (intro update_first_found[OF Some]) (simp_all add: quantity_positive_def)
      then show ?thesis
        using a Some \<open>getFromDB (products (db s)) i = Some p\<close>
        by (simp add: addToCart_def quantity_positive_def)
    qed
  qed
qed

lemma updateCartItemQuantity_positive:
  "quantity_positive (cart s) \<Longrightarrow> quantity_positive (cart (updateCartItemQuantity i c s))"
proof -
  assume a: "quantity_positive (cart s)"
  show ?thesis
  proof (cases "find (\<lambda>x. iid x = i) (items (cart s))")
    case None
    then show ?thesis using a by (simp add: updateCartItemQuantity_def)
  next
    case (Some y)
    have up: "list_all (\<lambda>x. 1 \<le> quantity x)
          (update_first (\<lambda>x. iid x = i) (\<lambda>x. x\<lparr>quantity := quantity y + c\<rparr>) (items (cart s)))"
      if "0 < quantity y + c"
      using a that by (intro update_first_found[OF Some]) (simp_all add: quantity_positive_def)
    show ?thesis
      using a Some up
      by (auto simp: updateCartItemQuantity_def quantity_positive_def Let_def list_all_iff)
  qed
qed

lemma step_positive:
  "quantity_positive (cart s) \<Longrightarrow> quantity_positive (cart (step s e))"
proof (cases e)
  case (Pair now ev)
  assume a: "quantity_positive (cart s)"
  show ?thesis
    unfolding Pair
    using a addToCart_positive[OF a] updateCartItemQuantity_positive[OF a]
    by (cases ev)
       (auto simp: clearCart_def showPaymentModal_def cashPaidInputHandler_def Let_def
          completeTransaction_def startNewTransaction_def quantity_positive_def applyDefaultFees_def)
qed

lemma run_positive:
  "quantity_positive (cart s) \<Longrightarrow> quantity_positive (cart (run s evs))"
  unfolding run_def
  by (induction evs arbitrary: s) (auto intro: step_positive)

lemma updateCartItemQuantity_within:
  "within_snapshot (cart s) \<Longrightarrow> within_snapshot (cart (updateCartItemQuantity i c s))"
proof -
  assume a: "within_snapshot (cart s)"
  show ?thesis
  proof (cases "find (\<lambda>x. iid x = i) (items (cart s))")
    case None
    then show ?thesis using a by (simp add: updateCartItemQuantity_def)
  next
    case (Some y)
    have up: "list_all (\<lambda>x. quantity x \<le> istock x)
          (update_first (\<lambda>x. iid x = i) (\<lambda>x. x\<lparr>quantity := quantity y + c\<rparr>) (items (cart s)))"
      if "quantity y + c \<le> istock y"
      using a that by (intro update_first_found[OF Some]) (simp_all add: within_snapshot_def)
    show ?thesis
      using a Some up
      by (auto simp: updateCartItemQuantity_def within_snapshot_def Let_def list_all_iff)
  qed
qed

lemma addToCart_within:
  assumes a: "within_snapshot (cart s)" and ok: "stock_within_snapshot i s"
  shows "within_snapshot (cart (addToCart i s))"
proof (cases "getFromDB (products (db s)) i")
  case None
  then show ?thesis using a by (simp add: addToCart_def)
next
  case (Some p)
  then have nonneg: "0 \<le> stock p"
    and le: "list_all (\<lambda>item. iid item \<noteq> i \<or> stock p \<le> istock item) (items (cart s))"
    using ok by (simp_all add: stock_within_snapshot_def)
  show ?thesis
  proof (cases "find (\<lambda>x. iid x = i) (items (cart s))")
    case None
    then show ?thesis
      using a Some nonneg
      by (auto simp: addToCart_def within_snapshot_def newCartItem_def Let_def)
  next
    case found: (Some y)
    have "y \<in> set (items (cart s))" "iid y = i"
      using found by (auto simp: find_Some_iff)
    then have "stock p \<le> istock y"
      using le by (auto simp: list_all_iff)
    then have "list_all (\<lambda>x. quantity x \<le> istock x)
          (update_first (\<lambda>x. iid x = i) (\<lambda>x. x\<lparr>quantity := quantity x + 1\<rparr>) (items (cart s)))"
      if "quantity y < stock p"
      using a that by (intro update_first_found[OF found]) (simp_all add: within_snapshot_def)
    then show ?thesis
      using a Some found
      by (auto simp: addToCart_def within_snapshot_def)
  qed
qed

text \<open>
  Claim C10, as amended. Every line of the cart has quantity at least 1, and every
  operation keeps this. \<^verbatim>\<open>updateCartItemQuantity\<close> compares the new quantity with the stock
  copied into the line when it was added, and keeps quantity \<open>\<le>\<close> snapshot. The increment
  path of \<^verbatim>\<open>addToCart\<close> compares with the product's stock as stored now, not with the
  snapshot: it keeps quantity \<open>\<le>\<close> snapshot when the stored stock is not negative and not
  above the snapshot of the product's line, as it is while the stored stock has not been
  raised since the line was added.
\<close>

theorem cart_quantity_bounds:
  "(quantity_positive (cart s) \<longrightarrow> quantity_positive (cart (run s evs))) \<and>
   (within_snapshot (cart s) \<longrightarrow> within_snapshot (cart (updateCartItemQuantity i c s))) \<and>
   (within_snapshot (cart s) \<and> stock_within_snapshot i s \<longrightarrow> within_snapshot (cart (addToCart i s)))"
  using run_positive updateCartItemQuantity_within addToCart_within by blast

lemma late_increase_eval:
  "items (cart (run shop_example late_increase)) =
     [\<lparr>iid = 2, iname = ''Teh'', iprice = 5000, effectivePrice = 5000,
       idiscountPercentage = 0, quantity = 2, istock = 1\<rparr>]"
  by (simp add: late_increase_def shop_examples eval_defs)

text \<open>The claim as stated fails when the stock of a product is raised after it was put
  into the cart: the next click on the product raises the quantity to 2 against a snapshot
  of 1.\<close>

theorem cart_quantity_bounds_counterexample:
  "\<not> (quantity_positive (cart (run shop_example late_increase)) \<and>
      within_snapshot (cart (run shop_example late_increase)))"
  by (simp add: late_increase_eval within_snapshot_def)

theorem cart_quantity_bounds_witness:
  "quantity_positive (cart (run shop_example [(1, AddToCart 1)])) \<and>
   within_snapshot (cart (run shop_example [(1, AddToCart 1)])) \<and>
   stock_within_snapshot 1 (run shop_example [(1, AddToCart 1)]) \<and>
   quantity_positive (cart (run (run shop_example [(1, AddToCart 1)]) late_increase)) \<and>
   within_snapshot (cart (updateCartItemQuantity 1 3 (run shop_example [(1, AddToCart 1)]))) \<and>
   within_snapshot (cart (addToCart 1 (run shop_example [(1, AddToCart 1)])))"
proof -
  let ?s = "run shop_example [(1, AddToCart 1)]"
  have e: "cart ?s = \<lparr>items = [\<lparr>iid = 1, iname = ''Kopi'', iprice = 10000, effectivePrice = 9000,
                idiscountPercentage = 10, quantity = 1, istock = 5\<rparr>], fees = [ppn_fee]\<rparr>"
    and p: "getFromDB (products (db ?s)) 1 = Some kopi"
    by (simp_all add: shop_examples eval_defs)
  have h1: "quantity_positive (cart ?s)"
    using e by (simp add: quantity_positive_def)
  have h2: "within_snapshot (cart ?s)"
    using e by (simp add: within_snapshot_def)
  have h3: "stock_within_snapshot 1 ?s"
    using e p by (simp add: stock_within_snapshot_def kopi_def)
  show ?thesis
    using cart_quantity_bounds[of ?s late_increase 1 3] h1 h2 h3 by blast
qed

section \<open>Atomicity of the checkout\<close>

lemma foldl_stockPut_get:
  assumes keyed: "\<And>k v. get0 k = Some v \<Longrightarrow> pid v = k"
      and dis: "distinct (map pid xs)"
  shows "getFromDB (foldl stockPut st (zip xs (map (\<lambda>i. get0 (pid i)) xs))) k =
     (case find (\<lambda>i. pid i = k) xs of
        None \<Rightarrow> getFromDB st k
      | Some item \<Rightarrow>
          (case get0 k of
             None \<Rightarrow> getFromDB st k
           | Some p \<Rightarrow> Some (p\<lparr>stock := stock p - lquantity item\<rparr>)))"
  using dis
proof (induction xs arbitrary: st)
  case Nil
  show ?case by simp
next
  case (Cons x xs)
  have dis: "distinct (map pid xs)" and nin: "pid x \<notin> pid ` set xs"
    using Cons.prems by auto
  have none: "find (\<lambda>i. pid i = pid x) xs = None"
    using nin by (rule find_key_None)
  show ?case
  proof (cases "get0 (pid x)")
    case None
    then show ?thesis
      using Cons.IH[OF dis, of st] none
      by (auto simp: stockPut_def split: option.splits)
  next
    case (Some p)
    then have "pid p = pid x" by (rule keyed)
    then show ?thesis
      using Cons.IH[OF dis, of "putAt (pid x) (p\<lparr>stock := stock p - lquantity x\<rparr>) st"] none Some
      by (auto simp: stockPut_def getFromDB_putAt split: option.splits)
  qed
qed

text \<open>
  Claim C1 (the code departs from it). Suppose the product of one line of the cart is gone
  from the store and the product of another line is there. In \<^verbatim>\<open>index.js\<close>, whose
  checkout is marked \<^verbatim>\<open>ATOMIC TRANSACTION\<close>, the missing product is reported, and still the
  transaction record is stored and the stock of the other product is lowered: the handler
  rejects a promise and never aborts the IndexedDB transaction. In the cashier script the
  missing product is skipped without an error (\<^verbatim>\<open>if (product) { ... }\<close>), each write is a
  transaction of its own, and again the transaction record is stored and the other stock
  lowered. The claim has no transaction record and no stock change in this case.
\<close>

theorem checkout_not_atomic:
  assumes "wf_store pid (iproducts d)" and "distinct (map pid lines)"
      and "gone \<in> set lines" and "getFromDB (iproducts d) (pid gone) = None"
      and "line \<in> set lines" and "getFromDB (iproducts d) (pid line) = Some p"
      and "wf_store pid (products (db s))" and "distinct (map iid (items (cart s)))"
      and "gone' \<in> set (items (cart s))" and "getFromDB (products (db s)) (iid gone') = None"
      and "item \<in> set (items (cart s))" and "getFromDB (products (db s)) (iid item) = Some p'"
  shows "fst (completeTransaction_index now cash lines fs d) \<noteq> None \<and>
     getFromDB (itransactions (snd (completeTransaction_index now cash lines fs d)))
         (nextKey (itransactions d)) =
       Some (newTransaction now cash lines fs (nextKey (itransactions d))) \<and>
     map_option stock (getFromDB (iproducts (snd (completeTransaction_index now cash lines fs d)))
         (pid line)) = Some (stock p - lquantity line) \<and>
     getFromDB (transactions (db (completeTransaction now s))) (nextKey (transactions (db s))) =
       Some (buildTransaction now (cashPaidInput s) (cart s) (nextKey (transactions (db s)))) \<and>
     map_option stock (getFromDB (products (db (completeTransaction now s))) (iid item)) =
       Some (stock p' - quantity item)"
proof -
  have rej: "find (\<lambda>item. getFromDB (iproducts d) (pid item) = None) lines \<noteq> None"
    using assms(3,4) by (auto simp: find_None_iff)
  have keyed: "pid v = k" if "getFromDB (iproducts d) k = Some v" for k v
    using that getFromDB_Some_id[OF assms(1)] by simp
  have line: "find (\<lambda>i. pid i = pid line) lines = Some line"
    using find_distinct_member[OF assms(2) assms(5)] .
  have idx: "getFromDB (foldl stockPut (iproducts d)
        (zip lines (map (\<lambda>i. getFromDB (iproducts d) (pid i)) lines))) (pid line) =
      Some (p\<lparr>stock := stock p - lquantity line\<rparr>)"
    using foldl_stockPut_get[where ?get0.0 = "getFromDB (iproducts d)" and xs = lines
        and st = "iproducts d" and k = "pid line", OF keyed assms(2)] line assms(6)
    by simp
  let ?d1 = "queueSyncAction now ''CREATE_TRANSACTION''
      (PTransaction (buildTransaction now (cashPaidInput s) (cart s) (nextKey (transactions (db s)))))
      ((db s)\<lparr>transactions := snd (putNew (buildTransaction now (cashPaidInput s) (cart s)) (transactions (db s)))\<rparr>)"
  have prod: "products ?d1 = products (db s)"
    by simp
  have keyed': "pid v = k" if "getFromDB (products ?d1) k = Some v" for k v
    using that getFromDB_Some_id[OF assms(7)] by (simp only: prod)
  have old: "getFromDB (products (foldl (updateStockFor now) ?d1 (items (cart s)))) (iid item) =
        Some (p'\<lparr>stock := stock p' - quantity item, pupdatedAt := now\<rparr>)"
    using foldl_updateStockFor_get[where d = ?d1 and now = now and k = "iid item", OF keyed' assms(8)]
      find_distinct_member[OF assms(8) assms(11)] assms(12)
    by (simp add: prod)
  show ?thesis
    using rej idx old
    by (simp add: completeTransaction_index_def completeTransaction_def Let_def getFromDB_putNew
        putNew_def getFromDB_putAt)
qed


lemma product_vanishes_eval:
  "paymentModalOpen (run shop_example product_vanishes) \<and>
   \<not> buttonDisabled (run shop_example product_vanishes) \<and>
   items (cart (run shop_example product_vanishes)) = [newCartItem kopi, newCartItem teh] \<and>
   products (db (run shop_example product_vanishes)) = \<lparr>recs = [(1, kopi)], nextKey = 3\<rparr> \<and>
   transactions (db (run shop_example product_vanishes)) = empty_store"
  by (simp add: product_vanishes_def shop_examples eval_defs)

text \<open>Both checkouts on a cart of two products of which the second was deleted.\<close>

theorem checkout_not_atomic_witness:
  "getFromDB (iproducts idb_example) 2 = None \<and>
   getFromDB (products (db (run shop_example product_vanishes))) 2 = None \<and>
   fst (completeTransaction_index 6 (Some 20000) lines_example [] idb_example) \<noteq> None \<and>
   getFromDB (itransactions (snd (completeTransaction_index 6 (Some 20000) lines_example [] idb_example))) 1
     = Some (newTransaction 6 (Some 20000) lines_example [] 1) \<and>
   map_option stock
     (getFromDB (iproducts (snd (completeTransaction_index 6 (Some 20000) lines_example [] idb_example))) 1)
     = Some 4 \<and>
   getFromDB (transactions (db (run shop_example (product_vanishes @ [(6, ClickComplete)])))) 1 \<noteq> None \<and>
   map_option stock
     (getFromDB (products (db (run shop_example (product_vanishes @ [(6, ClickComplete)])))) 1) = Some 4"
proof -
  let ?s = "run shop_example product_vanishes"
  let ?k = "product.extend kopi (cart_line.fields 1)"
  let ?t = "product.extend teh (cart_line.fields 1)"
  have i1: "wf_store pid (iproducts idb_example)"
    by (simp add: idb_example_def wf_store_def kopi_def)
  have i2: "distinct (map pid lines_example)"
    by (simp add: lines_example_def kopi_def teh_def product.defs cart_line.defs)
  have i3: "?t \<in> set lines_example" and i5: "?k \<in> set lines_example"
    by (simp_all add: lines_example_def)
  have i4: "getFromDB (iproducts idb_example) (pid ?t) = None"
    by (simp add: idb_example_def getFromDB_def teh_def product.defs cart_line.defs)
  have i6: "getFromDB (iproducts idb_example) (pid ?k) = Some kopi"
    by (simp add: idb_example_def getFromDB_def kopi_def product.defs cart_line.defs)
  have r1: "wf_store pid (products (db ?s))"
    using product_vanishes_eval by (simp add: wf_store_def kopi_def)
  have r2: "distinct (map iid (items (cart ?s)))"
    using product_vanishes_eval by (simp add: newCartItem_def kopi_def teh_def)
  have r3: "newCartItem teh \<in> set (items (cart ?s))" and r5: "newCartItem kopi \<in> set (items (cart ?s))"
    using product_vanishes_eval by simp_all
  have r4: "getFromDB (products (db ?s)) (iid (newCartItem teh)) = None"
    using product_vanishes_eval by (simp add: getFromDB_def newCartItem_def teh_def)
  have r6: "getFromDB (products (db ?s)) (iid (newCartItem kopi)) = Some kopi"
    using product_vanishes_eval by (simp add: getFromDB_def newCartItem_def kopi_def)
  have click: "run shop_example (product_vanishes @ [(6, ClickComplete)]) = completeTransaction 6 ?s"
    using product_vanishes_eval by (simp add: run_def)
  have ids: "pid ?t = 2" "pid ?k = 1" "iid (newCartItem teh) = 2" "iid (newCartItem kopi) = 1"
    "lquantity ?k = 1" "quantity (newCartItem kopi) = 1" "stock kopi = 5"
    "nextKey (itransactions idb_example) = 1" "nextKey (transactions (db ?s)) = 1"
    using product_vanishes_eval
    by (simp_all add: newCartItem_def kopi_def teh_def product.defs cart_line.defs idb_example_def
        empty_store_def)
  show ?thesis
    using checkout_not_atomic[OF i1 i2 i3 i4 i5 i6 r1 r2 r3 r4 r5 r6, of 6 "Some 20000" "[]"]
      i4 r4
    by (simp add: click ids)
qed

section \<open>The outbox\<close>

lemma writeServerId_queue [simp]:
  "sQueue (writeServerId t r d) = sQueue d" "sSettings (writeServerId t r d) = sSettings d"
  by (auto simp: writeServerId_def setStore_def split: option.splits store_name.splits)

lemma pushLoop_prefix:
  "\<exists>n b d'. pushLoop api q d0 tr = (b, d', tr @ map (\<lambda>kt. ApiCall (fst kt) (snd kt)) (take n q))"
proof (induction q arbitrary: d0 tr)
  case Nil
  show ?case by auto
next
  case (Cons kt q)
  obtain k t where kt: "kt = (k, t)" by (cases kt)
  show ?case
  proof (cases "success (api t)")
    case True
    let ?d1 = "(writeServerId t (api t) d0)\<lparr>sQueue := deleteFromDB k (sQueue (writeServerId t (api t) d0))\<rparr>"
    from Cons.IH[of ?d1 "tr @ [ApiCall k t]"]
    obtain n b d' where
      "pushLoop api q ?d1 (tr @ [ApiCall k t]) =
         (b, d', (tr @ [ApiCall k t]) @ map (\<lambda>kt. ApiCall (fst kt) (snd kt)) (take n q))"
      by blast
    then have "pushLoop api (kt # q) d0 tr =
         (b, d', tr @ map (\<lambda>kt. ApiCall (fst kt) (snd kt)) (take (Suc n) (kt # q)))"
      using True by (simp add: kt Let_def)
    then show ?thesis by blast
  next
    case False
    then have "pushLoop api (kt # q) d0 tr =
         (True, d0, tr @ map (\<lambda>kt. ApiCall (fst kt) (snd kt)) (take (Suc 0) (kt # q)))"
      by (simp add: kt Let_def)
    then show ?thesis by blast
  qed
qed

lemma pushLoop_fail:
  assumes "list_all (\<lambda>kt. success (api (snd kt))) pre" and "\<not> success (api t)"
  shows "\<exists>d'. pushLoop api (pre @ (k, t) # post) d0 tr =
           (True, d', tr @ map (\<lambda>kt. ApiCall (fst kt) (snd kt)) (pre @ [(k, t)])) \<and>
         sSettings d' = sSettings d0 \<and>
         recs (sQueue d') = filter (\<lambda>kv. fst kv \<notin> fst ` set pre) (recs (sQueue d0))"
  using assms(1)
proof (induction pre arbitrary: d0 tr)
  case Nil
  show ?case using assms(2) by (simp add: Let_def)
next
  case (Cons a pre)
  obtain k' t' where a: "a = (k', t')" by (cases a)
  let ?d1 = "(writeServerId t' (api t') d0)\<lparr>sQueue := deleteFromDB k' (sQueue (writeServerId t' (api t') d0))\<rparr>"
  have ok: "success (api t')" and rest: "list_all (\<lambda>kt. success (api (snd kt))) pre"
    using Cons.prems by (simp_all add: a)
  from Cons.IH[OF rest, of ?d1 "tr @ [ApiCall k' t']"]
  obtain d' where d': "pushLoop api (pre @ (k, t) # post) ?d1 (tr @ [ApiCall k' t']) =
        (True, d', (tr @ [ApiCall k' t']) @ map (\<lambda>kt. ApiCall (fst kt) (snd kt)) (pre @ [(k, t)]))"
      "sSettings d' = sSettings ?d1"
      "recs (sQueue d') = filter (\<lambda>kv. fst kv \<notin> fst ` set pre) (recs (sQueue ?d1))"
    by blast
  have "filter (\<lambda>kv. fst kv \<notin> fst ` set pre) (recs (sQueue ?d1)) =
        filter (\<lambda>kv. fst kv \<notin> fst ` set (a # pre)) (recs (sQueue d0))"
    by (auto simp: deleteFromDB_def a intro: filter_cong)
  then show ?case
    using d' ok by (simp add: a Let_def)
qed

lemma filter_keys_split:
  assumes "distinct (map fst (pre @ x # post))"
  shows "filter (\<lambda>kv. fst kv \<notin> fst ` set pre) (pre @ x # post) = x # post"
proof -
  have "filter (\<lambda>kv. fst kv \<notin> fst ` set pre) pre = []"
    by (auto simp: filter_empty_conv)
  moreover have "filter (\<lambda>kv. fst kv \<notin> fst ` set pre) (x # post) = x # post"
    using assms by (auto simp: filter_id_conv image_iff) 
  ultimately show ?thesis by simp
qed

text \<open>
  A sync cycle whose remote call fails at the entry \<open>t\<close>: the calls made are those for the
  entries before \<open>t\<close> and for \<open>t\<close>, the queue keeps \<open>t\<close> and what follows it, the settings
  stay, the next cycle starts with \<open>t\<close>, and the calls of any cycle are those for an
  initial segment of the queue.
\<close>

lemma drain_stops:
  assumes q: "recs (sQueue d) = pre @ (k, t) # post"
      and keys: "distinct (map fst (recs (sQueue d)))"
      and ok: "list_all (\<lambda>kt. success (api (snd kt))) pre"
      and fail: "\<not> success (api t)"
  shows "snd (syncWithServer api fetch now True False d) =
           map (\<lambda>kt. ApiCall (fst kt) (snd kt)) (pre @ [(k, t)]) \<and>
         recs (sQueue (fst (syncWithServer api fetch now True False d))) = (k, t) # post \<and>
         sSettings (fst (syncWithServer api fetch now True False d)) = sSettings d \<and>
         take 1 (snd (syncWithServer api' fetch' now' True False
                        (fst (syncWithServer api fetch now True False d)))) = [ApiCall k t] \<and>
         (\<exists>n. filter (\<lambda>e. case e of ApiCall i x \<Rightarrow> True | Fetch x \<Rightarrow> False)
                 (snd (syncWithServer api' fetch' now' True False d)) =
               map (\<lambda>kt. ApiCall (fst kt) (snd kt)) (take n (recs (sQueue d))))"
proof -
  let ?mk = "\<lambda>kt. ApiCall (fst kt) (snd kt)"
  from pushLoop_fail[OF ok fail, of k post d "[]"]
  obtain d' where d': "pushLoop api (pre @ (k, t) # post) d [] = (True, d', map ?mk (pre @ [(k, t)]))"
      "sSettings d' = sSettings d"
      "recs (sQueue d') = filter (\<lambda>kv. fst kv \<notin> fst ` set pre) (recs (sQueue d))"
    by auto
  have r: "syncWithServer api fetch now True False d = (d', map ?mk (pre @ [(k, t)]))"
    by (simp add: syncWithServer_def q d'(1))
  have q': "recs (sQueue d') = (k, t) # post"
    using d'(3) keys filter_keys_split[of pre "(k, t)" post] by (simp add: q)
  from pushLoop_prefix[of api' "post" _ "[ApiCall k t]"]
  have nxt: "\<exists>b d2 tr2. pushLoop api' ((k, t) # post) d' [] = (b, d2, ApiCall k t # tr2)"
    by (cases "success (api' t)") (auto simp: Let_def, metis)
  then obtain b d2 tr2 where p2: "pushLoop api' ((k, t) # post) d' [] = (b, d2, ApiCall k t # tr2)"
    by blast
  have first: "take 1 (snd (syncWithServer api' fetch' now' True False d')) = [ApiCall k t]"
    by (cases b) (simp_all add: syncWithServer_def q' p2 Let_def del: pushLoop.simps)
  from pushLoop_prefix[of api' "recs (sQueue d)" d "[]"]
  obtain n b3 d3 where p3: "pushLoop api' (recs (sQueue d)) d [] = (b3, d3, map ?mk (take n (recs (sQueue d))))"
    by auto
  have calls: "filter (\<lambda>e. case e of ApiCall i x \<Rightarrow> True | Fetch x \<Rightarrow> False) (map ?mk xs) = map ?mk xs" for xs
    by (induction xs) auto
  have fifo: "filter (\<lambda>e. case e of ApiCall i x \<Rightarrow> True | Fetch x \<Rightarrow> False)
                 (snd (syncWithServer api' fetch' now' True False d)) = map ?mk (take n (recs (sQueue d)))"
    by (cases b3) (simp_all add: syncWithServer_def p3 Let_def calls)
  show ?thesis
    using r q' d'(2) first fifo by auto
qed



subsection \<open>The order of the queue is the order of enqueueing\<close>

lemma upsert_append:
  "\<forall>kv \<in> set xs. fst kv < k \<Longrightarrow> upsert k v xs = xs @ [(k, v)]"
  by (induction xs) auto

lemma queue_ok_empty: "queue_ok empty_store"
  by (simp add: queue_ok_def empty_store_def)

lemma queue_ok_distinct: "queue_ok st \<Longrightarrow> distinct (map fst (recs st))"
  by (simp add: queue_ok_def strict_sorted_iff)

lemma enqueue_appends:
  assumes "queue_ok (sQueue d)"
  shows "recs (sQueue (enqueue queued act pidOpt p d)) =
           recs (sQueue d) @ [(nextKey (sQueue d),
              \<lparr>taskAction = act, payloadId = pidOpt, taskPayload = p, taskTimestamp = queued\<rparr>)]"
    and "nextKey (sQueue (enqueue queued act pidOpt p d)) = Suc (nextKey (sQueue d))"
proof -
  have "\<forall>kv \<in> set (recs (sQueue d)). fst kv < nextKey (sQueue d)"
    using assms by (simp add: queue_ok_def list_all_iff)
  then show "recs (sQueue (enqueue queued act pidOpt p d)) =
           recs (sQueue d) @ [(nextKey (sQueue d),
              \<lparr>taskAction = act, payloadId = pidOpt, taskPayload = p, taskTimestamp = queued\<rparr>)]"
    by (simp add: enqueue_def putNew_def putAt_def upsert_append)
  show "nextKey (sQueue (enqueue queued act pidOpt p d)) = Suc (nextKey (sQueue d))"
    by (simp add: enqueue_def putNew_def putAt_def)
qed

lemma enqueue_ok:
  assumes "queue_ok (sQueue d)"
  shows "queue_ok (sQueue (enqueue queued act pidOpt p d))"
proof -
  have lt: "\<forall>kv \<in> set (recs (sQueue d)). fst kv < nextKey (sQueue d)"
    and srt: "sorted_wrt (<) (map fst (recs (sQueue d)))"
    using assms by (simp_all add: queue_ok_def list_all_iff)
  have "sorted_wrt (<) (map fst (recs (sQueue d)) @ [nextKey (sQueue d)])"
    using lt srt by (simp add: sorted_wrt_append)
  moreover have "list_all (\<lambda>kv. fst kv < Suc (nextKey (sQueue d))) (recs (sQueue d))"
    using lt by (auto simp: list_all_iff less_Suc_eq)
  ultimately show ?thesis
    unfolding queue_ok_def enqueue_appends[OF assms] by simp
qed

lemma queue_ok_filter:
  assumes "queue_ok st" and "recs st' = filter P (recs st)" and "nextKey st' = nextKey st"
  shows "queue_ok st'"
  using assms by (auto simp: queue_ok_def list_all_iff sorted_wrt_map sorted_wrt_filter)

lemma pushLoop_queue:
  "\<exists>P. recs (sQueue (fst (snd (pushLoop api q d0 tr)))) = filter P (recs (sQueue d0)) \<and>
       nextKey (sQueue (fst (snd (pushLoop api q d0 tr)))) = nextKey (sQueue d0)"
proof (induction q arbitrary: d0 tr)
  case Nil
  have "recs (sQueue d0) = filter (\<lambda>x. True) (recs (sQueue d0))" by simp
  then show ?case by (simp del: filter_True) blast
next
  case (Cons kt q)
  obtain k t where kt: "kt = (k, t)" by (cases kt)
  show ?case
  proof (cases "success (api t)")
    case True
    let ?d1 = "(writeServerId t (api t) d0)\<lparr>sQueue := deleteFromDB k (sQueue (writeServerId t (api t) d0))\<rparr>"
    from Cons.IH[of ?d1 "tr @ [ApiCall k t]"]
    obtain P where P: "recs (sQueue (fst (snd (pushLoop api q ?d1 (tr @ [ApiCall k t]))))) =
          filter P (recs (sQueue ?d1))"
        "nextKey (sQueue (fst (snd (pushLoop api q ?d1 (tr @ [ApiCall k t]))))) = nextKey (sQueue ?d1)"
      by blast
    have step: "pushLoop api (kt # q) d0 tr = pushLoop api q ?d1 (tr @ [ApiCall k t])"
      using True by (simp add: kt Let_def)
    have r1: "recs (sQueue ?d1) = filter (\<lambda>kv. fst kv \<noteq> k) (recs (sQueue d0))"
      and n1: "nextKey (sQueue ?d1) = nextKey (sQueue d0)"
      by (simp_all add: deleteFromDB_def)
    have "recs (sQueue (fst (snd (pushLoop api (kt # q) d0 tr)))) =
            filter (\<lambda>kv. fst kv \<noteq> k \<and> P kv) (recs (sQueue d0))"
      unfolding step P(1) r1 by simp
    moreover have "nextKey (sQueue (fst (snd (pushLoop api (kt # q) d0 tr)))) = nextKey (sQueue d0)"
      unfolding step P(2) n1 ..
    ultimately show ?thesis by blast
  next
    case False
    then have "pushLoop api (kt # q) d0 tr = (True, d0, tr @ [ApiCall k t])"
      by (simp add: kt Let_def)
    moreover have "recs (sQueue d0) = filter (\<lambda>x. True) (recs (sQueue d0))" by simp
    ultimately show ?thesis by (simp del: filter_True) blast
  qed
qed

lemma mergeServerUpdates_queue: "sQueue (mergeServerUpdates su d) = sQueue d"
  by (simp add: mergeServerUpdates_def Let_def split: option.splits)

lemma syncWithServer_queue_ok:
  assumes "queue_ok (sQueue d)"
  shows "queue_ok (sQueue (fst (syncWithServer api fetch now isOnline isSyncing d)))"
proof -
  obtain b d1 tr where p: "pushLoop api (recs (sQueue d)) d [] = (b, d1, tr)"
    by (cases "pushLoop api (recs (sQueue d)) d []")
  from pushLoop_queue[of api "recs (sQueue d)" d "[]"]
  obtain P where "recs (sQueue d1) = filter P (recs (sQueue d))" "nextKey (sQueue d1) = nextKey (sQueue d)"
    by (auto simp: p)
  then have ok1: "queue_ok (sQueue d1)"
    using queue_ok_filter[OF assms] by blast
  show ?thesis
    using assms ok1 by (cases b) (simp_all add: syncWithServer_def p Let_def mergeServerUpdates_queue)
qed

text \<open>
  Claim C6. Let the queue be in order and hold the entries \<open>pre\<close>, then the entry \<open>t\<close> under
  the key \<open>k\<close>, then the entries \<open>post\<close>; let the remote call succeed for every entry of
  \<open>pre\<close> and fail for \<open>t\<close>.
  \<^item> \<^verbatim>\<open>queueSyncAction\<close> puts a new entry behind every entry of the queue, under a key
    above every key of the queue, and the queue stays in order after it and after every
    sync cycle: the order of the queue is the order in which its entries were enqueued.
  \<^item> A sync cycle makes the remote calls for \<open>pre\<close> and for \<open>t\<close>, in this order, and nothing
    else: no call for an entry of \<open>post\<close> and no request for the server's updates.
    Afterwards the queue holds \<open>t\<close> and \<open>post\<close>, and the settings, \<^verbatim>\<open>lastSync\<close> among them, are
    as before.
  \<^item> The same holds when a further entry is enqueued before the cycle: no call is made
    for it, and afterwards the queue holds \<open>t\<close>, \<open>post\<close> and that entry, in this order.
  \<^item> Whatever the server does in the next cycle, its first remote call is the one for \<open>t\<close>.
    In general the remote calls of a cycle are those for an initial segment of the queue,
    in queue order.
\<close>

theorem outbox_fifo:
  assumes qok: "queue_ok (sQueue d)"
      and q: "recs (sQueue d) = pre @ (k, t) # post"
      and ok: "list_all (\<lambda>kt. success (api (snd kt))) pre"
      and fail: "\<not> success (api t)"
  shows "recs (sQueue (enqueue queued act pidOpt p d)) =
           pre @ (k, t) # post @
             [(nextKey (sQueue d),
               \<lparr>taskAction = act, payloadId = pidOpt, taskPayload = p, taskTimestamp = queued\<rparr>)] \<and>
         list_all (\<lambda>kt. fst kt < nextKey (sQueue d)) (recs (sQueue d)) \<and>
         queue_ok (sQueue (enqueue queued act pidOpt p d)) \<and>
         queue_ok (sQueue (fst (syncWithServer api' fetch' now' isOnline isSyncing d))) \<and>
         snd (syncWithServer api fetch now True False d) =
           map (\<lambda>kt. ApiCall (fst kt) (snd kt)) (pre @ [(k, t)]) \<and>
         recs (sQueue (fst (syncWithServer api fetch now True False d))) = (k, t) # post \<and>
         sSettings (fst (syncWithServer api fetch now True False d)) = sSettings d \<and>
         snd (syncWithServer api fetch now True False (enqueue queued act pidOpt p d)) =
           map (\<lambda>kt. ApiCall (fst kt) (snd kt)) (pre @ [(k, t)]) \<and>
         recs (sQueue (fst (syncWithServer api fetch now True False (enqueue queued act pidOpt p d)))) =
           (k, t) # post @
             [(nextKey (sQueue d),
               \<lparr>taskAction = act, payloadId = pidOpt, taskPayload = p, taskTimestamp = queued\<rparr>)] \<and>
         take 1 (snd (syncWithServer api' fetch' now' True False
                        (fst (syncWithServer api fetch now True False d)))) = [ApiCall k t] \<and>
         (\<exists>n. filter (\<lambda>e. case e of ApiCall i x \<Rightarrow> True | Fetch x \<Rightarrow> False)
                 (snd (syncWithServer api' fetch' now' True False d)) =
               map (\<lambda>kt. ApiCall (fst kt) (snd kt)) (take n (recs (sQueue d))))"
proof -
  let ?new = "(nextKey (sQueue d),
               \<lparr>taskAction = act, payloadId = pidOpt, taskPayload = p, taskTimestamp = queued\<rparr>)"
  let ?d = "enqueue queued act pidOpt p d"
  have keys: "distinct (map fst (recs (sQueue d)))"
    using qok by (rule queue_ok_distinct)
  have a1: "recs (sQueue ?d) = pre @ (k, t) # (post @ [?new])"
    using enqueue_appends(1)[OF qok, of queued act pidOpt p] by (simp add: q)
  have a2: "list_all (\<lambda>kt. fst kt < nextKey (sQueue d)) (recs (sQueue d))"
    using qok by (simp add: queue_ok_def)
  have a3: "queue_ok (sQueue ?d)"
    using qok by (rule enqueue_ok)
  have a4: "queue_ok (sQueue (fst (syncWithServer api' fetch' now' isOnline isSyncing d)))"
    using qok by (rule syncWithServer_queue_ok)
  note b = drain_stops[OF q keys ok fail, of fetch now api' fetch' now']
  note c = drain_stops[OF a1 queue_ok_distinct[OF a3] ok fail, of fetch now api' fetch' now']
  have c1: "snd (syncWithServer api fetch now True False ?d) =
           map (\<lambda>kt. ApiCall (fst kt) (snd kt)) (pre @ [(k, t)])"
    using c by blast
  have c2: "recs (sQueue (fst (syncWithServer api fetch now True False ?d))) = (k, t) # post @ [?new]"
    using c by simp
  show ?thesis
    using a1 a2 a3 a4 b c1 c2 by simp
qed

lemmas sync_examples = kopi_obj_def task1_def task2_def task3_def default_categories_def
  sync_example_def flaky_api_def empty_store_def

text \<open>The queue of \<open>sync_example\<close> with a server that rejects its second entry, and a
  fourth entry enqueued before the cycle.\<close>

theorem outbox_fifo_witness:
  "queue_ok (sQueue sync_example) \<and>
   recs (sQueue sync_example) = [(1, task1)] @ (2, task2) # [(3, task3)] \<and>
   list_all (\<lambda>kt. success (flaky_api (snd kt))) [(1, task1)] \<and>
   \<not> success (flaky_api task2) \<and>
   recs (sQueue (enqueue 400 ''UPDATE_PRODUCT'' (Some 1) kopi_obj sync_example)) =
     [(1, task1), (2, task2), (3, task3),
      (4, \<lparr>taskAction = ''UPDATE_PRODUCT'', payloadId = Some 1, taskPayload = kopi_obj,
            taskTimestamp = 400\<rparr>)] \<and>
   snd (syncWithServer flaky_api (mockFetchFromServer mockServerData) 1000 True False sync_example) =
     [ApiCall 1 task1, ApiCall 2 task2] \<and>
   recs (sQueue (fst (syncWithServer flaky_api (mockFetchFromServer mockServerData) 1000 True False
                        sync_example))) = [(2, task2), (3, task3)] \<and>
   sSettings (fst (syncWithServer flaky_api (mockFetchFromServer mockServerData) 1000 True False
                     sync_example)) ''lastSync'' = None \<and>
   snd (syncWithServer flaky_api (mockFetchFromServer mockServerData) 1000 True False
          (enqueue 400 ''UPDATE_PRODUCT'' (Some 1) kopi_obj sync_example)) =
     [ApiCall 1 task1, ApiCall 2 task2] \<and>
   recs (sQueue (fst (syncWithServer flaky_api (mockFetchFromServer mockServerData) 1000 True False
                        (enqueue 400 ''UPDATE_PRODUCT'' (Some 1) kopi_obj sync_example)))) =
     [(2, task2), (3, task3),
      (4, \<lparr>taskAction = ''UPDATE_PRODUCT'', payloadId = Some 1, taskPayload = kopi_obj,
            taskTimestamp = 400\<rparr>)]"
proof -
  have h0: "queue_ok (sQueue sync_example)"
    by (simp add: queue_ok_def sync_example_def)
  have h1: "recs (sQueue sync_example) = [(1, task1)] @ (2, task2) # [(3, task3)]"
    by (simp add: sync_example_def)
  have h3: "list_all (\<lambda>kt. success (flaky_api (snd kt))) [(1, task1)]"
    by (simp add: flaky_api_def task1_def)
  have h4: "\<not> success (flaky_api task2)"
    by (simp add: flaky_api_def task2_def)
  have h5: "sSettings sync_example ''lastSync'' = None"
    by (simp add: sync_example_def)
  have h6: "nextKey (sQueue sync_example) = 4"
    by (simp add: sync_example_def)
  show ?thesis
    using outbox_fifo[OF h0 h1 h3 h4, of 400 "''UPDATE_PRODUCT''" "Some 1" kopi_obj
        flaky_api "mockFetchFromServer mockServerData" 1000 True False
        "mockFetchFromServer mockServerData" 1000] h0 h1 h3 h4 h5 h6
    by simp
qed

section \<open>The merge of the server's updates\<close>

subsection \<open>Stores in key order\<close>

lemma upsert_keys: "set (map fst (upsert k v xs)) = insert k (set (map fst xs))"
proof (induction xs)
  case Nil
  show ?case by simp
next
  case (Cons a xs)
  obtain k' v' where a: "a = (k', v')" by (cases a)
  show ?case
    using Cons.IH by (cases "k < k'"; cases "k = k'") (simp_all add: a insert_commute)
qed

lemma sorted_upsert:
  "sorted_wrt (<) (map fst xs) \<Longrightarrow> sorted_wrt (<) (map fst (upsert k v xs))"
proof (induction xs)
  case Nil
  show ?case by simp
next
  case (Cons a xs)
  obtain k' v' where a: "a = (k', v')" by (cases a)
  have srt: "sorted_wrt (<) (map fst xs)" and lt: "\<forall>x \<in> set (map fst xs). k' < x"
    using Cons.prems by (simp_all add: a)
  show ?case
  proof (cases "k < k'")
    case True
    then show ?thesis using Cons.prems lt by (auto simp: a)
  next
    case False
    show ?thesis
    proof (cases "k = k'")
      case True
      then show ?thesis using Cons.prems by (simp add: a)
    next
      case ne: False
      then have "k' < k" using False by simp
      then have "\<forall>x \<in> set (map fst (upsert k v xs)). k' < x"
        using lt by (simp only: upsert_keys) simp
      then show ?thesis
        using Cons.IH[OF srt] False ne by (simp add: a)
    qed
  qed
qed

lemma set_upsert:
  "sorted_wrt (<) (map fst xs) \<Longrightarrow>
   set (upsert k v xs) = insert (k, v) {kv \<in> set xs. fst kv \<noteq> k}"
proof (induction xs)
  case Nil
  show ?case by simp
next
  case (Cons a xs)
  obtain k' v' where a: "a = (k', v')" by (cases a)
  have srt: "sorted_wrt (<) (map fst xs)" and lt: "\<forall>x \<in> set xs. k' < fst x"
    using Cons.prems by (simp_all add: a)
  show ?case
  proof (cases "k < k'")
    case True
    then have "\<forall>x \<in> set xs. fst x \<noteq> k" using lt by fastforce
    then show ?thesis using True by (auto simp: a)
  next
    case False
    show ?thesis
    proof (cases "k = k'")
      case True
      then have "\<forall>x \<in> set xs. fst x \<noteq> k" using lt by fastforce
      then show ?thesis using True by (auto simp: a)
    next
      case ne: False
      then show ?thesis
        using Cons.IH[OF srt] False by (auto simp: a)
    qed
  qed
qed

lemma sorted_keys_unique:
  fixes xs :: "(nat \<times> 'a) list"
  assumes "sorted_wrt (<) (map fst xs)" "(k, v) \<in> set xs" "(k, v') \<in> set xs"
  shows "v = v'"
proof -
  have "distinct (map fst xs)"
    using assms(1) by (simp add: strict_sorted_iff)
  then show ?thesis
    using assms(2,3) by (meson eq_key_imp_eq_value)
qed

lemma upsert_same:
  "sorted_wrt (<) (map fst xs) \<Longrightarrow> (k, v) \<in> set xs \<Longrightarrow> upsert k v xs = xs"
proof (induction xs)
  case Nil
  then show ?case by simp
next
  case (Cons a xs)
  obtain k' v' where a: "a = (k', v')" by (cases a)
  have srt: "sorted_wrt (<) (map fst xs)" and lt: "\<forall>x \<in> set xs. k' < fst x"
    using Cons.prems by (simp_all add: a)
  show ?case
  proof (cases "(k, v) = a")
    case True
    then show ?thesis by (simp add: a)
  next
    case False
    then have mem: "(k, v) \<in> set xs" using Cons.prems by simp
    then have "k' < k" using lt by fastforce
    then show ?thesis using Cons.IH[OF srt mem] by (simp add: a)
  qed
qed

lemma recs_putAt:
  "sorted_wrt (<) (map fst (recs st)) \<Longrightarrow>
   set (recs (putAt k v st)) = insert (k, v) {kv \<in> set (recs st). fst kv \<noteq> k}"
  by (simp add: putAt_def set_upsert)

lemma putAt_same:
  assumes "sorted_wrt (<) (map fst (recs st))" "(k, v) \<in> set (recs st)" "k < nextKey st"
  shows "putAt k v st = st"
  using assms by (simp add: putAt_def upsert_same max_def)

lemma unique_on_iff:
  "unique_on g st \<longleftrightarrow>
     (\<forall>x \<in> set (recs st). \<forall>y \<in> set (recs st).
        g (snd x) \<noteq> None \<longrightarrow> g (snd x) = g (snd y) \<longrightarrow> fst x = fst y)"
  unfolding unique_on_def list_all_iff by (fastforce simp: Ball_def)

lemma violates_iff:
  "violates keyPath k p st \<longleftrightarrow>
     (indexKey keyPath p \<noteq> None \<and>
      (\<exists>kv \<in> set (recs st). fst kv \<noteq> k \<and> indexKey keyPath (snd kv) = indexKey keyPath p))"
  by (auto simp: violates_def list_ex_iff)

lemma store_ok_sorted: "store_ok kp st \<Longrightarrow> sorted_wrt (<) (map fst (recs st))"
  by (simp add: store_ok_def)

lemma store_ok_key_lt: "store_ok kp st \<Longrightarrow> (k, v) \<in> set (recs st) \<Longrightarrow> k < nextKey st"
  by (auto simp: store_ok_def list_all_iff)

lemma store_ok_same_key:
  "store_ok kp st \<Longrightarrow> (k, v) \<in> set (recs st) \<Longrightarrow> (k, v') \<in> set (recs st) \<Longrightarrow> v = v'"
  using sorted_keys_unique[of "recs st" k v v'] by (simp add: store_ok_def)

lemma store_ok_same_identity:
  assumes "store_ok kp st" "(k, p) \<in> set (recs st)" "(k', p') \<in> set (recs st)"
      and "remoteIdentity p = Some v" "remoteIdentity p' = Some v"
  shows "k = k' \<and> p = p'"
proof -
  have "k = k'"
    using assms by (fastforce simp: store_ok_def unique_on_iff)
  then show ?thesis
    using store_ok_same_key[OF assms(1,2)] assms(3) by simp
qed

lemma unique_on_insert:
  assumes set': "set (recs st') = insert (k, p') {kv \<in> set (recs st). fst kv \<noteq> k}"
      and u: "unique_on g st"
      and others: "\<forall>kv \<in> set (recs st). fst kv \<noteq> k \<longrightarrow> g (snd kv) \<noteq> g p' \<or> g p' = None"
  shows "unique_on g st'"
  unfolding unique_on_iff
proof (intro ballI impI)
  fix x y
  assume x: "x \<in> set (recs st')" and y: "y \<in> set (recs st')"
    and nn: "g (snd x) \<noteq> None" and eq: "g (snd x) = g (snd y)"
  consider "x = (k, p')" "y = (k, p')"
    | "x = (k, p')" "y \<in> set (recs st)" "fst y \<noteq> k"
    | "y = (k, p')" "x \<in> set (recs st)" "fst x \<noteq> k"
    | "x \<in> set (recs st)" "y \<in> set (recs st)"
    using x y unfolding set' by blast
  then show "fst x = fst y"
  proof cases
    case 1
    then show ?thesis by simp
  next
    case 2
    then show ?thesis using others nn eq by force
  next
    case 3
    then show ?thesis using others nn eq by force
  next
    case 4
    then show ?thesis using u nn eq unfolding unique_on_iff by blast
  qed
qed

text \<open>A replacement that keeps the remote identity and is accepted by the index.\<close>

lemma store_ok_putAt:
  assumes ok: "store_ok kp st" and mem: "(k, p) \<in> set (recs st)"
      and nv: "\<not> violates kp k p' st" and same: "remoteIdentity p' = remoteIdentity p"
  shows "store_ok kp (putAt k p' st)"
proof -
  have srt: "sorted_wrt (<) (map fst (recs st))" using ok by (rule store_ok_sorted)
  have klt: "k < nextKey st" using ok mem by (rule store_ok_key_lt)
  have set': "set (recs (putAt k p' st)) = insert (k, p') {kv \<in> set (recs st). fst kv \<noteq> k}"
    using srt by (rule recs_putAt)
  have nk: "nextKey (putAt k p' st) = nextKey st"
    using klt by (simp add: putAt_def max_def)
  have s1: "sorted_wrt (<) (map fst (recs (putAt k p' st)))"
    using srt by (simp add: putAt_def sorted_upsert)
  have "\<forall>kv \<in> set (recs st). fst kv < nextKey st"
    using ok by (simp add: store_ok_def list_all_iff)
  then have s2: "list_all (\<lambda>kv. fst kv < nextKey (putAt k p' st)) (recs (putAt k p' st))"
    using klt unfolding list_all_iff set' nk by auto
  have "\<forall>kv \<in> set (recs st). fst kv \<noteq> k \<longrightarrow>
          indexKey kp (snd kv) \<noteq> indexKey kp p' \<or> indexKey kp p' = None"
    using nv unfolding violates_iff by blast
  then have s3: "index_unique kp (putAt k p' st)"
    unfolding index_unique_def
    using ok by (intro unique_on_insert[OF set']) (simp_all add: store_ok_def index_unique_def)
  have u: "unique_on remoteIdentity st" using ok by (simp add: store_ok_def)
  have "\<forall>kv \<in> set (recs st). fst kv \<noteq> k \<longrightarrow>
          remoteIdentity (snd kv) \<noteq> remoteIdentity p' \<or> remoteIdentity p' = None"
  proof (intro ballI impI)
    fix kv assume kv: "kv \<in> set (recs st)" "fst kv \<noteq> k"
    show "remoteIdentity (snd kv) \<noteq> remoteIdentity p' \<or> remoteIdentity p' = None"
    proof (rule ccontr)
      assume "\<not> ?thesis"
      then have "remoteIdentity (snd kv) = remoteIdentity p" "remoteIdentity (snd kv) \<noteq> None"
        using same by auto
      then have "fst kv = fst (k, p)"
        using u kv(1) mem unfolding unique_on_iff by (metis snd_conv)
      then show False using kv(2) by simp
    qed
  qed
  then have s4: "unique_on remoteIdentity (putAt k p' st)"
    using u by (intro unique_on_insert[OF set']) simp_all
  show ?thesis
    using s1 s2 s3 s4 by (simp add: store_ok_def)
qed

text \<open>An insertion under the next key, accepted by the index, of a record whose remote
  identity no record of the store has.\<close>

lemma recs_add:
  assumes ok: "store_ok kp st"
  shows "recs (putAt (nextKey st) p st) = recs st @ [(nextKey st, p)] \<and>
         nextKey (putAt (nextKey st) p st) = Suc (nextKey st)"
proof -
  have "\<forall>kv \<in> set (recs st). fst kv < nextKey st"
    using ok by (simp add: store_ok_def list_all_iff)
  then show ?thesis
    by (simp add: putAt_def upsert_append)
qed

lemma store_ok_add:
  assumes ok: "store_ok kp st"
      and nv: "\<not> violates kp (nextKey st) p st"
      and fresh: "\<forall>kv \<in> set (recs st). remoteIdentity (snd kv) \<noteq> remoteIdentity p \<or> remoteIdentity p = None"
  shows "store_ok kp (putAt (nextKey st) p st)"
proof -
  let ?st' = "putAt (nextKey st) p st"
  note r = recs_add[OF ok, of p]
  have lt: "\<forall>kv \<in> set (recs st). fst kv < nextKey st"
    using ok by (simp add: store_ok_def list_all_iff)
  have set': "set (recs ?st') = insert (nextKey st, p) {kv \<in> set (recs st). fst kv \<noteq> nextKey st}"
    using lt by (auto simp: r)
  have s1: "sorted_wrt (<) (map fst (recs ?st'))"
    using ok lt by (simp add: r store_ok_def sorted_wrt_append)
  have s2: "list_all (\<lambda>kv. fst kv < nextKey ?st') (recs ?st')"
    using lt by (simp add: r list_all_iff less_Suc_eq)
  have "\<forall>kv \<in> set (recs st). fst kv \<noteq> nextKey st \<longrightarrow>
          indexKey kp (snd kv) \<noteq> indexKey kp p \<or> indexKey kp p = None"
    using nv unfolding violates_iff by blast
  then have s3: "index_unique kp ?st'"
    unfolding index_unique_def
    using ok by (intro unique_on_insert[OF set']) (simp_all add: store_ok_def index_unique_def)
  have "\<forall>kv \<in> set (recs st). fst kv \<noteq> nextKey st \<longrightarrow>
          remoteIdentity (snd kv) \<noteq> remoteIdentity p \<or> remoteIdentity p = None"
    using fresh by auto
  then have s4: "unique_on remoteIdentity ?st'"
    using ok by (intro unique_on_insert[OF set']) (simp_all add: store_ok_def)
  show ?thesis
    using s1 s2 s3 s4 by (simp add: store_ok_def)
qed

lemma store_ok_delete:
  assumes ok: "store_ok kp st"
  shows "store_ok kp (deleteFromDB k st)"
proof -
  have r: "recs (deleteFromDB k st) = filter (\<lambda>kv. fst kv \<noteq> k) (recs st)"
    "nextKey (deleteFromDB k st) = nextKey st"
    by (simp_all add: deleteFromDB_def)
  have "sorted_wrt (<) (map fst (filter (\<lambda>kv. fst kv \<noteq> k) (recs st)))"
    using ok by (simp add: store_ok_def sorted_wrt_map sorted_wrt_filter)
  moreover have "unique_on g (deleteFromDB k st)" if "unique_on g st" for g
    using that unfolding unique_on_iff r by fastforce
  ultimately show ?thesis
    using ok by (simp add: store_ok_def index_unique_def r list_all_iff)
qed

subsection \<open>Remote identities and the map of the merge\<close>

lemma remoteIdentity_Some:
  "remoteIdentity p = Some v \<longleftrightarrow> p ''serverId'' = Some v \<and> truthy (Some v)"
  by (auto simp: remoteIdentity_def)

lemma truthy_Some: "truthy x \<Longrightarrow> \<exists>v. x = Some v"
  by (cases x) (simp_all add: truthy_def)

lemma remoteIdentity_truthy: "truthy (p ''serverId'') \<Longrightarrow> remoteIdentity p = p ''serverId''"
  by (simp add: remoteIdentity_def)

lemma assignServer_identity:
  "truthy (sp ''serverId'') \<Longrightarrow> remoteIdentity (assignServer lp sp) = sp ''serverId''"
proof -
  assume t: "truthy (sp ''serverId'')"
  then obtain v where v: "sp ''serverId'' = Some v" using truthy_Some by blast
  show ?thesis using t by (simp add: v remoteIdentity_def assignServer_def map_add_def)
qed

lemma withoutId_identity:
  "truthy (sp ''serverId'') \<Longrightarrow> remoteIdentity (withoutId sp) = sp ''serverId''"
  by (simp add: remoteIdentity_def withoutId_def)

lemma assignServer_idem: "assignServer (assignServer lp sp) sp = assignServer lp sp"
  by (auto simp: assignServer_def fun_eq_iff map_add_def split: option.splits)

lemma assignServer_withoutId: "assignServer (withoutId sp) sp = withoutId sp"
  by (auto simp: assignServer_def withoutId_def fun_eq_iff map_add_def split: option.splits)

lemma serverIdMap_SomeD:
  assumes "serverIdMap st v = Some kv"
  shows "kv \<in> set (recs st) \<and> remoteIdentity (snd kv) = Some v"
proof -
  let ?L = "map (\<lambda>kv. (the (snd kv ''serverId''), kv))
              (filter (\<lambda>kv. truthy (snd kv ''serverId'')) (recs st))"
  have "map_of (rev ?L) v = Some kv"
    using assms by (simp add: serverIdMap_def Map_new_map_of)
  then have "(v, kv) \<in> set (rev ?L)"
    by (rule map_of_SomeD)
  then have "(v, kv) \<in> set ?L"
    by (simp only: set_rev)
  then have "kv \<in> set (recs st)" "truthy (snd kv ''serverId'')" "v = the (snd kv ''serverId'')"
    by auto
  then show ?thesis
    by (auto simp: remoteIdentity_def dest: truthy_Some)
qed

lemma serverIdMap_None:
  "serverIdMap st v = None \<longleftrightarrow> (\<forall>kv \<in> set (recs st). remoteIdentity (snd kv) \<noteq> Some v)"
proof -
  let ?L = "map (\<lambda>kv. (the (snd kv ''serverId''), kv))
              (filter (\<lambda>kv. truthy (snd kv ''serverId'')) (recs st))"
  have "serverIdMap st v = None \<longleftrightarrow> v \<notin> fst ` set ?L"
    by (simp add: serverIdMap_def Map_new_map_of map_of_eq_None_iff)
  also have "\<dots> \<longleftrightarrow> (\<forall>kv \<in> set (recs st). remoteIdentity (snd kv) \<noteq> Some v)"
  proof
    assume nin: "v \<notin> fst ` set ?L"
    show "\<forall>kv \<in> set (recs st). remoteIdentity (snd kv) \<noteq> Some v"
    proof
      fix kv assume kv: "kv \<in> set (recs st)"
      show "remoteIdentity (snd kv) \<noteq> Some v"
      proof
        assume "remoteIdentity (snd kv) = Some v"
        then have "truthy (snd kv ''serverId'')" "the (snd kv ''serverId'') = v"
          by (simp_all add: remoteIdentity_Some)
        then have "(v, kv) \<in> set ?L" using kv by auto
        then have "fst (v, kv) \<in> fst ` set ?L" by (rule imageI)
        then show False using nin by (simp only: fst_conv)
      qed
    qed
  next
    assume all: "\<forall>kv \<in> set (recs st). remoteIdentity (snd kv) \<noteq> Some v"
    show "v \<notin> fst ` set ?L"
    proof
      assume "v \<in> fst ` set ?L"
      then obtain kv where kv: "kv \<in> set (recs st)" "truthy (snd kv ''serverId'')"
          "v = the (snd kv ''serverId'')"
        by auto
      obtain w where w: "snd kv ''serverId'' = Some w" using kv(2) truthy_Some by blast
      have "remoteIdentity (snd kv) = Some v"
        using kv(2,3) by (simp add: remoteIdentity_def w)
      then show False using all kv(1) by blast
    qed
  qed
  finally show ?thesis .
qed

lemma serverIdMap_Some:
  assumes ok: "store_ok kp st" and mem: "(k, p) \<in> set (recs st)" and idt: "remoteIdentity p = Some v"
  shows "serverIdMap st v = Some (k, p)"
proof -
  have "serverIdMap st v \<noteq> None"
  proof
    assume "serverIdMap st v = None"
    then have "remoteIdentity (snd (k, p)) \<noteq> Some v"
      using mem unfolding serverIdMap_None by blast
    then show False using idt by simp
  qed
  then obtain kv where kv: "serverIdMap st v = Some kv" by blast
  obtain k' p' where kp': "kv = (k', p')" by (cases kv)
  have "(k', p') \<in> set (recs st)" "remoteIdentity p' = Some v"
    using serverIdMap_SomeD[OF kv] by (simp_all add: kp')
  then have "k = k' \<and> p = p'"
    using store_ok_same_identity[OF ok mem _ idt] by blast
  then show ?thesis using kv kp' by simp
qed

lemma merge_inv_start: "store_ok kp st \<Longrightarrow> merge_inv kp [] (serverIdMap st) st"
proof -
  assume ok: "store_ok kp st"
  have a: "(k, p) \<in> set (recs st) \<and> remoteIdentity p = Some v" if "serverIdMap st v = Some (k, p)" for v k p
    using serverIdMap_SomeD[OF that] by simp
  have b: "serverIdMap st v = Some kv" if "kv \<in> set (recs st)" "remoteIdentity (snd kv) = Some v" for kv v
    using serverIdMap_Some[OF ok, of "fst kv" "snd kv" v] that by simp
  show ?thesis
    unfolding merge_inv_def
  proof (intro conjI allI impI ballI)
    show "store_ok kp st" by (rule ok)
  next
    fix v k p assume "serverIdMap st v = Some (k, p)"
    then show "(k, p) \<in> set (recs st)" using a by blast
  next
    fix v k p assume "serverIdMap st v = Some (k, p)"
    then show "remoteIdentity p = Some v" using a by blast
  next
    fix kv v assume "kv \<in> set (recs st)" "remoteIdentity (snd kv) = Some v"
    then show "serverIdMap st v = Some kv \<or> Some v \<in> (\<lambda>p. p ''serverId'') ` set []"
      using b by blast
  next
    fix p :: obj assume "p \<in> set []"
    then show "settled st p" by simp
  qed
qed

subsection \<open>One turn of the merge loop keeps the invariant\<close>

lemma merge_inv_replace:
  assumes inv: "merge_inv kp seen m st"
      and tr: "truthy (sp ''serverId'')" and v: "sp ''serverId'' = Some v"
      and new: "Some v \<notin> (\<lambda>p. p ''serverId'') ` set seen"
      and hit: "m v = Some (k, lp)"
      and nv: "\<not> violates kp k (assignServer lp sp) st"
  shows "merge_inv kp (seen @ [sp]) (m(v \<mapsto> (k, assignServer lp sp))) (putAt k (assignServer lp sp) st)"
proof -
  let ?lp' = "assignServer lp sp"
  let ?st' = "putAt k ?lp' st"
  have ok: "store_ok kp st"
    and J2: "\<And>v k p. m v = Some (k, p) \<Longrightarrow> (k, p) \<in> set (recs st) \<and> remoteIdentity p = Some v"
    and J3: "\<And>kv v. kv \<in> set (recs st) \<Longrightarrow> remoteIdentity (snd kv) = Some v \<Longrightarrow>
               m v = Some kv \<or> Some v \<in> (\<lambda>p. p ''serverId'') ` set seen"
    and J4: "\<And>p. p \<in> set seen \<Longrightarrow> settled st p"
    using inv unfolding merge_inv_def by blast+
  have mem: "(k, lp) \<in> set (recs st)" and idl: "remoteIdentity lp = Some v"
    using J2[OF hit] by simp_all
  have idl': "remoteIdentity ?lp' = Some v"
    using assignServer_identity[of sp lp] tr v by simp
  have set': "set (recs ?st') = insert (k, ?lp') {kv \<in> set (recs st). fst kv \<noteq> k}"
    using store_ok_sorted[OF ok] by (rule recs_putAt)
  have atk: "kv = (k, lp)" if "kv \<in> set (recs st)" "fst kv = k" for kv
    using store_ok_same_key[OF ok mem, of "snd kv"] that by (cases kv) simp
  have ok': "store_ok kp ?st'"
    using ok mem nv by (rule store_ok_putAt) (simp add: idl idl')
  show ?thesis
    unfolding merge_inv_def
  proof (intro conjI allI impI ballI)
    show "store_ok kp ?st'" by (rule ok')
  next
    fix v' k' p' assume h: "(m(v \<mapsto> (k, ?lp'))) v' = Some (k', p')"
    show "(k', p') \<in> set (recs ?st')"
    proof (cases "v' = v")
      case True
      then have "(k', p') = (k, ?lp')" using h by simp
      then show ?thesis by (simp only: set' insertI1)
    next
      case False
      then have m: "m v' = Some (k', p')" using h by simp
      then have in_st: "(k', p') \<in> set (recs st)" and id': "remoteIdentity p' = Some v'"
        using J2 by blast+
      have "k' \<noteq> k"
      proof
        assume "k' = k"
        then have "(k', p') = (k, lp)" using atk[OF in_st] by simp
        then show False using id' idl False by simp
      qed
      then show ?thesis using in_st by (simp add: set')
    qed
  next
    fix v' k' p' assume h: "(m(v \<mapsto> (k, ?lp'))) v' = Some (k', p')"
    show "remoteIdentity p' = Some v'"
      using h idl' J2 by (cases "v' = v") auto
  next
    fix kv v' assume kv: "kv \<in> set (recs ?st')" and id': "remoteIdentity (snd kv) = Some v'"
    show "(m(v \<mapsto> (k, ?lp'))) v' = Some kv \<or> Some v' \<in> (\<lambda>p. p ''serverId'') ` set (seen @ [sp])"
    proof (cases "kv = (k, ?lp')")
      case True
      then have "v' = v" using id' idl' by simp
      then show ?thesis using True by simp
    next
      case False
      then have in_st: "kv \<in> set (recs st)" and nk: "fst kv \<noteq> k"
        using kv unfolding set' by auto
      from J3[OF in_st id'] show ?thesis
      proof
        assume m: "m v' = Some kv"
        have "v' \<noteq> v"
        proof
          assume "v' = v"
          then have "kv = (k, lp)" using m hit by simp
          then show False using nk by simp
        qed
        then show ?thesis using m by simp
      next
        assume "Some v' \<in> (\<lambda>p. p ''serverId'') ` set seen"
        then show ?thesis by auto
      qed
    qed
  next
    fix p assume p: "p \<in> set (seen @ [sp])"
    show "settled ?st' p"
    proof (cases "p = sp")
      case True
      have "(k, ?lp') \<in> set (recs ?st')" by (simp add: set')
      moreover have "remoteIdentity (snd (k, ?lp')) = sp ''serverId''"
        using idl' v by simp
      moreover have "assignServer (snd (k, ?lp')) sp = snd (k, ?lp')"
        by (simp add: assignServer_idem)
      ultimately show ?thesis
        unfolding settled_def True by blast
    next
      case False
      then have ps: "p \<in> set seen" using p by simp
      from J4[OF ps] obtain kv where kv: "kv \<in> set (recs st)"
          "remoteIdentity (snd kv) = p ''serverId''"
          "remoteIsNewer (snd kv) p \<longrightarrow> assignServer (snd kv) p = snd kv"
        unfolding settled_def by blast
      have "fst kv \<noteq> k"
      proof
        assume "fst kv = k"
        then have "kv = (k, lp)" using atk[OF kv(1)] by simp
        then have "p ''serverId'' = Some v" using kv(2) idl by simp
        moreover have "p ''serverId'' \<in> (\<lambda>p. p ''serverId'') ` set seen"
          using ps by (rule imageI)
        ultimately show False using new by simp
      qed
      then have "kv \<in> set (recs ?st')" using kv(1) by (simp add: set')
      then show ?thesis
        unfolding settled_def using kv(2,3) by blast
    qed
  qed
qed


lemma merge_inv_keep:
  assumes inv: "merge_inv kp seen m st"
      and v: "sp ''serverId'' = Some v"
      and hit: "m v = Some (k, lp)"
      and old: "\<not> remoteIsNewer lp sp"
  shows "merge_inv kp (seen @ [sp]) m st"
proof -
  have J2: "\<And>v k p. m v = Some (k, p) \<Longrightarrow> (k, p) \<in> set (recs st) \<and> remoteIdentity p = Some v"
    and J3: "\<And>kv v. kv \<in> set (recs st) \<Longrightarrow> remoteIdentity (snd kv) = Some v \<Longrightarrow>
               m v = Some kv \<or> Some v \<in> (\<lambda>p. p ''serverId'') ` set seen"
    and J4: "\<And>p. p \<in> set seen \<Longrightarrow> settled st p"
    using inv unfolding merge_inv_def by blast+
  have "(k, lp) \<in> set (recs st)" "remoteIdentity (snd (k, lp)) = sp ''serverId''"
    using J2[OF hit] v by simp_all
  then have "settled st sp"
    unfolding settled_def using old by (intro bexI[of _ "(k, lp)"]) simp_all
  then have "\<forall>p \<in> set (seen @ [sp]). settled st p"
    using J4 by auto
  moreover have "\<forall>kv \<in> set (recs st). \<forall>v. remoteIdentity (snd kv) = Some v \<longrightarrow>
          m v = Some kv \<or> Some v \<in> (\<lambda>p. p ''serverId'') ` set (seen @ [sp])"
    using J3 by auto
  ultimately show ?thesis
    using inv unfolding merge_inv_def by blast
qed

lemma merge_inv_insert:
  assumes inv: "merge_inv kp seen m st"
      and tr: "truthy (sp ''serverId'')" and v: "sp ''serverId'' = Some v"
      and new: "Some v \<notin> (\<lambda>p. p ''serverId'') ` set seen"
      and miss: "m v = None"
      and nv: "\<not> violates kp (nextKey st) (withoutId sp) st"
  shows "merge_inv kp (seen @ [sp]) m (putAt (nextKey st) (withoutId sp) st)"
proof -
  let ?p0 = "withoutId sp"
  let ?st' = "putAt (nextKey st) ?p0 st"
  have ok: "store_ok kp st"
    and J2: "\<And>v k p. m v = Some (k, p) \<Longrightarrow> (k, p) \<in> set (recs st) \<and> remoteIdentity p = Some v"
    and J3: "\<And>kv v. kv \<in> set (recs st) \<Longrightarrow> remoteIdentity (snd kv) = Some v \<Longrightarrow>
               m v = Some kv \<or> Some v \<in> (\<lambda>p. p ''serverId'') ` set seen"
    and J4: "\<And>p. p \<in> set seen \<Longrightarrow> settled st p"
    using inv unfolding merge_inv_def by blast+
  have id0: "remoteIdentity ?p0 = Some v"
    using withoutId_identity[of sp] tr v by simp
  have fresh: "remoteIdentity (snd kv) \<noteq> Some v" if "kv \<in> set (recs st)" for kv
  proof
    assume "remoteIdentity (snd kv) = Some v"
    from J3[OF that this] show False using miss new by auto
  qed
  have r: "recs ?st' = recs st @ [(nextKey st, ?p0)]"
    using recs_add[OF ok] by blast
  have ok': "store_ok kp ?st'"
    using ok nv by (rule store_ok_add) (simp add: id0 fresh)
  show ?thesis
    unfolding merge_inv_def
  proof (intro conjI allI impI ballI)
    show "store_ok kp ?st'" by (rule ok')
  next
    fix v' k' p' assume "m v' = Some (k', p')"
    then show "(k', p') \<in> set (recs ?st')" using J2 by (simp add: r)
  next
    fix v' k' p' assume "m v' = Some (k', p')"
    then show "remoteIdentity p' = Some v'" using J2 by blast
  next
    fix kv v' assume kv: "kv \<in> set (recs ?st')" and id': "remoteIdentity (snd kv) = Some v'"
    show "m v' = Some kv \<or> Some v' \<in> (\<lambda>p. p ''serverId'') ` set (seen @ [sp])"
    proof (cases "kv = (nextKey st, ?p0)")
      case True
      then have "v' = v" using id' id0 by simp
      then have "Some v' = sp ''serverId''" using v by simp
      then show ?thesis by auto
    next
      case False
      then have "kv \<in> set (recs st)" using kv by (simp add: r)
      from J3[OF this id'] show ?thesis by auto
    qed
  next
    fix p assume p: "p \<in> set (seen @ [sp])"
    show "settled ?st' p"
    proof (cases "p = sp")
      case True
      have "(nextKey st, ?p0) \<in> set (recs ?st')" by (simp add: r)
      moreover have "remoteIdentity (snd (nextKey st, ?p0)) = sp ''serverId''"
        using id0 v by simp
      moreover have "assignServer (snd (nextKey st, ?p0)) sp = snd (nextKey st, ?p0)"
        by (simp add: assignServer_withoutId)
      ultimately show ?thesis
        unfolding settled_def True by blast
    next
      case False
      then have ps: "p \<in> set seen" using p by simp
      from J4[OF ps] obtain kv where kv: "kv \<in> set (recs st)"
          "remoteIdentity (snd kv) = p ''serverId''"
          "remoteIsNewer (snd kv) p \<longrightarrow> assignServer (snd kv) p = snd kv"
        unfolding settled_def by blast
      have "kv \<in> set (recs ?st')" using kv(1) by (simp add: r)
      then show ?thesis
        unfolding settled_def using kv(2,3) by blast
    qed
  qed
qed

lemma mergeRecord_inv:
  assumes inv: "merge_inv kp seen m st"
      and tr: "truthy (sp ''serverId'')"
      and new: "sp ''serverId'' \<notin> (\<lambda>p. p ''serverId'') ` set seen"
      and res: "mergeRecord kp (m, Some st) sp = (m', Some st')"
  shows "merge_inv kp (seen @ [sp]) m' st'"
proof -
  obtain v where v: "sp ''serverId'' = Some v" using tr truthy_Some by blast
  have new': "Some v \<notin> (\<lambda>p. p ''serverId'') ` set seen" using new v by simp
  show ?thesis
  proof (cases "m v")
    case None
    then have "addChecked kp (withoutId sp) st = Some st'" "m' = m"
      using res by (simp_all add: mergeRecord_def lookupServerId_def v)
    then have "\<not> violates kp (nextKey st) (withoutId sp) st"
        "st' = putAt (nextKey st) (withoutId sp) st"
      by (auto simp: addChecked_def putChecked_def split: if_splits)
    then show ?thesis
      using merge_inv_insert[where sp = sp and v = v and m = m and seen = seen and st = st, OF inv tr v new' None] \<open>m' = m\<close> by simp
  next
    case (Some kv)
    obtain k lp where kv: "kv = (k, lp)" by (cases kv)
    have hit: "m v = Some (k, lp)" using Some kv by simp
    show ?thesis
    proof (cases "remoteIsNewer lp sp")
      case True
      then have "putChecked kp k (assignServer lp sp) st = Some st'"
          "m' = m(v \<mapsto> (k, assignServer lp sp))"
        using res hit by (simp_all add: mergeRecord_def lookupServerId_def v)
      then have "\<not> violates kp k (assignServer lp sp) st" "st' = putAt k (assignServer lp sp) st"
          "m' = m(v \<mapsto> (k, assignServer lp sp))"
        by (auto simp: putChecked_def split: if_splits)
      then show ?thesis
        using merge_inv_replace[where sp = sp and v = v and m = m and seen = seen and st = st, OF inv tr v new' hit] by simp
    next
      case False
      then have "m' = m" "st' = st"
        using res hit by (simp_all add: mergeRecord_def lookupServerId_def v)
      then show ?thesis
        using merge_inv_keep[where sp = sp and v = v and m = m and seen = seen and st = st, OF inv v hit False] by simp
    qed
  qed
qed

lemma foldl_mergeRecord_aborted: "snd (foldl (mergeRecord kp) (m, None) sps) = None"
proof (induction sps arbitrary: m)
  case Nil
  show ?case by simp
next
  case (Cons sp sps)
  have "\<exists>m'. mergeRecord kp (m, None) sp = (m', None)"
    by (auto simp: mergeRecord_def split: option.splits)
  then show ?case using Cons by auto
qed

lemma foldl_mergeRecord_inv:
  assumes "merge_inv kp seen m st"
      and "list_all (\<lambda>p. truthy (p ''serverId'')) todo"
      and "distinct (map (\<lambda>p. p ''serverId'') (seen @ todo))"
      and "foldl (mergeRecord kp) (m, Some st) todo = (m', Some st')"
  shows "merge_inv kp (seen @ todo) m' st'"
  using assms
proof (induction todo arbitrary: seen m st)
  case Nil
  then show ?case by simp
next
  case (Cons sp todo)
  obtain m1 tx1 where step: "mergeRecord kp (m, Some st) sp = (m1, tx1)"
    by (cases "mergeRecord kp (m, Some st) sp")
  have "tx1 \<noteq> None"
  proof
    assume "tx1 = None"
    then have "snd (foldl (mergeRecord kp) (m, Some st) (sp # todo)) = None"
      using step foldl_mergeRecord_aborted[of kp m1 todo] by simp
    then show False using Cons.prems(4) by simp
  qed
  then obtain st1 where tx1: "tx1 = Some st1" by blast
  have tr: "truthy (sp ''serverId'')" and rest: "list_all (\<lambda>p. truthy (p ''serverId'')) todo"
    using Cons.prems(2) by simp_all
  have new: "sp ''serverId'' \<notin> (\<lambda>p. p ''serverId'') ` set seen"
    using Cons.prems(3) by auto
  have inv1: "merge_inv kp (seen @ [sp]) m1 st1"
    using mergeRecord_inv[where sp = sp and m = m and seen = seen and st = st, OF Cons.prems(1) tr new] step tx1 by simp
  have dis: "distinct (map (\<lambda>p. p ''serverId'') ((seen @ [sp]) @ todo))"
    using Cons.prems(3) by simp
  have "foldl (mergeRecord kp) (m1, Some st1) todo = (m', Some st')"
    using Cons.prems(4) step tx1 by simp
  from Cons.IH[OF inv1 rest dis this] show ?case by simp
qed

subsection \<open>The deletion markers\<close>

lemma foldl_deleteMarked_aborted: "foldl (deleteMarked m) None dels = None"
  by (induction dels) (auto simp: deleteMarked_def split: option.splits)

lemma foldl_deleteMarked:
  "foldl (deleteMarked m) (Some st) dels =
     Some (st\<lparr>recs := filter (\<lambda>kv. \<not> (\<exists>v \<in> set dels. \<exists>p. m v = Some (fst kv, p))) (recs st)\<rparr>)"
proof (induction dels arbitrary: st)
  case Nil
  show ?case by simp
next
  case (Cons v dels)
  show ?case
  proof (cases "m v")
    case None
    then have "deleteMarked m (Some st) v = Some st"
      by (simp add: deleteMarked_def)
    then show ?thesis
      using Cons[of st] None by (auto intro!: filter_cong)
  next
    case (Some kv)
    obtain k p where kv: "kv = (k, p)" by (cases kv)
    have "deleteMarked m (Some st) v = Some (deleteFromDB k st)"
      using Some by (simp add: deleteMarked_def kv)
    moreover have "filter (\<lambda>kv. \<not> (\<exists>v \<in> set dels. \<exists>p. m v = Some (fst kv, p)))
          (filter (\<lambda>kv. fst kv \<noteq> k) (recs st)) =
        filter (\<lambda>kv. \<not> (\<exists>v' \<in> set (v # dels). \<exists>p. m v' = Some (fst kv, p))) (recs st)"
      using Some kv by (auto intro!: filter_cong)
    ultimately show ?thesis
      using Cons[of "deleteFromDB k st"] by (simp add: deleteFromDB_def)
  qed
qed

lemma store_ok_filter:
  assumes ok: "store_ok kp st"
  shows "store_ok kp (st\<lparr>recs := filter (\<lambda>kv. P (fst kv)) (recs st)\<rparr>)"
proof -
  have "sorted_wrt (<) (map fst (filter (\<lambda>kv. P (fst kv)) (recs st)))"
    using ok by (simp add: store_ok_def sorted_wrt_map sorted_wrt_filter)
  moreover have "unique_on g (st\<lparr>recs := filter (\<lambda>kv. P (fst kv)) (recs st)\<rparr>)"
    if "unique_on g st" for g
    using that unfolding unique_on_iff by fastforce
  ultimately show ?thesis
    using ok by (simp add: store_ok_def index_unique_def list_all_iff)
qed


subsection \<open>After a merge, the same updates are settled\<close>

lemma mergeKind_post:
  assumes ok: "store_ok kp st" and dok: "delta_ok sps dels"
      and res: "mergeKind kp sps dels st = Some st1"
  shows "store_ok kp st1 \<and> (\<forall>sp \<in> set sps. settled st1 sp) \<and>
         (\<forall>v \<in> set dels. \<forall>kv \<in> set (recs st1). remoteIdentity (snd kv) \<noteq> Some v)"
proof -
  obtain m' tx' where r: "foldl (mergeRecord kp) (serverIdMap st, Some st) sps = (m', tx')"
    by (cases "foldl (mergeRecord kp) (serverIdMap st, Some st) sps")
  have del: "foldl (deleteMarked m') tx' dels = Some st1"
    using res r by (simp add: mergeKind_def)
  have "tx' \<noteq> None"
  proof
    assume "tx' = None"
    then show False using del foldl_deleteMarked_aborted[of m' dels] by simp
  qed
  then obtain st' where tx': "tx' = Some st'" by blast
  have tr: "list_all (\<lambda>p. truthy (p ''serverId'')) sps"
    and dis: "distinct (map (\<lambda>p. p ''serverId'') sps)"
    and disj: "\<And>p. p \<in> set sps \<Longrightarrow> p ''serverId'' \<notin> Some ` set dels"
    using dok by (auto simp: delta_ok_def list_all_iff)
  have inv: "merge_inv kp sps m' st'"
    using foldl_mergeRecord_inv[where seen = "[]" and todo = sps and m = "serverIdMap st"
        and st = st and m' = m' and st' = st' and kp = kp]
      merge_inv_start[OF ok] tr dis r tx' by simp
  have ok': "store_ok kp st'"
    and J2: "\<And>v k p. m' v = Some (k, p) \<Longrightarrow> (k, p) \<in> set (recs st') \<and> remoteIdentity p = Some v"
    and J3: "\<And>kv v. kv \<in> set (recs st') \<Longrightarrow> remoteIdentity (snd kv) = Some v \<Longrightarrow>
               m' v = Some kv \<or> Some v \<in> (\<lambda>p. p ''serverId'') ` set sps"
    and J4: "\<And>p. p \<in> set sps \<Longrightarrow> settled st' p"
    using inv unfolding merge_inv_def by blast+
  let ?gone = "\<lambda>k. \<exists>v \<in> set dels. \<exists>p. m' v = Some (k, p)"
  have st1: "st1 = st'\<lparr>recs := filter (\<lambda>kv. \<not> ?gone (fst kv)) (recs st')\<rparr>"
    using del tx' foldl_deleteMarked[of m' st' dels] by simp
  have rec1: "set (recs st1) = {kv \<in> set (recs st'). \<not> ?gone (fst kv)}"
    by (simp add: st1)
  have c1: "store_ok kp st1"
    unfolding st1 using ok' by (rule store_ok_filter)
  have c2: "settled st1 sp" if sp: "sp \<in> set sps" for sp
  proof -
    from J4[OF sp] obtain kv where kv: "kv \<in> set (recs st')"
        "remoteIdentity (snd kv) = sp ''serverId''"
        "remoteIsNewer (snd kv) sp \<longrightarrow> assignServer (snd kv) sp = snd kv"
      unfolding settled_def by blast
    have "\<not> ?gone (fst kv)"
    proof
      assume "?gone (fst kv)"
      then obtain v p where v: "v \<in> set dels" "m' v = Some (fst kv, p)" by blast
      have "(fst kv, p) \<in> set (recs st')" "remoteIdentity p = Some v"
        using J2[OF v(2)] by simp_all
      moreover have "(fst kv, snd kv) \<in> set (recs st')" using kv(1) by simp
      ultimately have "snd kv = p"
        using store_ok_same_key[OF ok'] by blast
      then have "sp ''serverId'' = Some v"
        using kv(2) \<open>remoteIdentity p = Some v\<close> by simp
      then show False using disj[OF sp] v(1) by simp
    qed
    then have "kv \<in> set (recs st1)" using kv(1) by (simp add: rec1)
    then show ?thesis
      unfolding settled_def using kv(2,3) by blast
  qed
  have c3: "remoteIdentity (snd kv) \<noteq> Some v" if v: "v \<in> set dels" and kv: "kv \<in> set (recs st1)" for v kv
  proof
    assume idt: "remoteIdentity (snd kv) = Some v"
    have in': "kv \<in> set (recs st')" and ng: "\<not> ?gone (fst kv)"
      using kv by (simp_all add: rec1)
    from J3[OF in' idt] show False
    proof
      assume "m' v = Some kv"
      then have "m' v = Some (fst kv, snd kv)" by simp
      then show False using ng v by blast
    next
      assume "Some v \<in> (\<lambda>p. p ''serverId'') ` set sps"
      then obtain sp where "sp \<in> set sps" "sp ''serverId'' = Some v" by auto
      then show False using disj[of sp] v by simp
    qed
  qed
  show ?thesis using c1 c2 c3 by blast
qed

lemma not_violates_member:
  assumes ok: "store_ok kp st" and mem: "(k, p) \<in> set (recs st)"
  shows "\<not> violates kp k p st"
proof
  assume "violates kp k p st"
  then obtain kv where kv: "indexKey kp p \<noteq> None" "kv \<in> set (recs st)" "fst kv \<noteq> k"
      "indexKey kp (snd kv) = indexKey kp p"
    unfolding violates_iff by blast
  have "unique_on (indexKey kp) st"
    using ok by (simp add: store_ok_def index_unique_def)
  then have "fst (k, p) = fst kv"
    using mem kv(1,2,4) unfolding unique_on_iff by (metis snd_conv)
  then show False using kv(3) by simp
qed

lemma mergeKind_settled:
  assumes ok: "store_ok kp st"
      and tr: "list_all (\<lambda>p. truthy (p ''serverId'')) sps"
      and stl: "\<forall>sp \<in> set sps. settled st sp"
      and none: "\<forall>v \<in> set dels. \<forall>kv \<in> set (recs st). remoteIdentity (snd kv) \<noteq> Some v"
  shows "mergeKind kp sps dels st = Some st"
proof -
  have step: "mergeRecord kp (serverIdMap st, Some st) sp = (serverIdMap st, Some st)"
    if t: "truthy (sp ''serverId'')" and s: "settled st sp" for sp
  proof -
    obtain v where v: "sp ''serverId'' = Some v" using t truthy_Some by blast
    from s obtain kv where kv: "kv \<in> set (recs st)" "remoteIdentity (snd kv) = Some v"
        "remoteIsNewer (snd kv) sp \<longrightarrow> assignServer (snd kv) sp = snd kv"
      unfolding settled_def v by blast
    obtain k lp where klp: "kv = (k, lp)" by (cases kv)
    have mem: "(k, lp) \<in> set (recs st)" and idt: "remoteIdentity lp = Some v"
      using kv(1,2) by (simp_all add: klp)
    have hit: "serverIdMap st v = Some (k, lp)"
      using serverIdMap_Some[OF ok mem idt] .
    show ?thesis
    proof (cases "remoteIsNewer lp sp")
      case True
      then have same: "assignServer lp sp = lp" using kv(3) by (simp add: klp)
      have "putChecked kp k lp st = Some st"
        using not_violates_member[OF ok mem] putAt_same[OF store_ok_sorted[OF ok] mem store_ok_key_lt[OF ok mem]]
        by (simp add: putChecked_def)
      moreover have "(serverIdMap st)(v \<mapsto> (k, lp)) = serverIdMap st"
        using hit by (rule map_upd_triv)
      ultimately show ?thesis
        using True hit by (simp add: mergeRecord_def lookupServerId_def v same)
    next
      case False
      then show ?thesis
        using hit by (simp add: mergeRecord_def lookupServerId_def v)
    qed
  qed
  have loop: "foldl (mergeRecord kp) (serverIdMap st, Some st) sps = (serverIdMap st, Some st)"
    using tr stl
  proof (induction sps)
    case Nil
    show ?case by simp
  next
    case (Cons sp sps)
    then show ?case using step[of sp] by simp
  qed
  have "serverIdMap st v = None" if "v \<in> set dels" for v
    using none that unfolding serverIdMap_None by blast
  then have "filter (\<lambda>kv. \<not> (\<exists>v \<in> set dels. \<exists>p. serverIdMap st v = Some (fst kv, p))) (recs st) = recs st"
    by (simp add: filter_id_conv)
  then show ?thesis
    by (simp add: mergeKind_def loop foldl_deleteMarked)
qed

lemma mergeKind_idem:
  assumes "store_ok kp st" and "delta_ok sps dels" and "mergeKind kp sps dels st = Some st1"
  shows "mergeKind kp sps dels st1 = Some st1"
proof -
  have "list_all (\<lambda>p. truthy (p ''serverId'')) sps"
    using assms(2) by (simp add: delta_ok_def)
  then show ?thesis
    using mergeKind_post[OF assms] by (intro mergeKind_settled) blast+
qed

lemma mergeServerUpdates_kinds:
  "mergeServerUpdates su d =
     (if suProducts su \<noteq> [] \<or> suCategories su \<noteq> [] \<or>
         deletedProducts su \<noteq> [] \<or> deletedCategories su \<noteq> []
      then (case mergeKind ''barcode'' (suProducts su) (deletedProducts su) (sProducts d) of
              None \<Rightarrow> d
            | Some ps \<Rightarrow>
                (case mergeKind ''name'' (suCategories su) (deletedCategories su) (sCategories d) of
                   None \<Rightarrow> d
                 | Some cs \<Rightarrow> d\<lparr>sProducts := ps, sCategories := cs\<rparr>))
      else d)"
  unfolding mergeServerUpdates_def mergeKind_def Let_def ..

text \<open>
  Claim C4, with the conditions under which the code has it. Let the local product and
  category stores be in order (keys ascending and below the key generator, the unique
  index on \<^verbatim>\<open>barcode\<close> resp. \<^verbatim>\<open>name\<close> satisfied, no two records with the same \<^verbatim>\<open>serverId\<close>), and
  let the server's updates be in order for both kinds (every record has a \<^verbatim>\<open>serverId\<close>, no
  two records of a kind have the same, and no record's \<^verbatim>\<open>serverId\<close> is also among the
  deletion markers of its kind). Then merging the same updates twice in succession leaves
  the database, hence the product and the category store, exactly as merging them once.
\<close>

theorem merge_idempotent:
  assumes "store_ok ''barcode'' (sProducts d)" and "store_ok ''name'' (sCategories d)"
      and "delta_ok (suProducts su) (deletedProducts su)"
      and "delta_ok (suCategories su) (deletedCategories su)"
  shows "mergeServerUpdates su (mergeServerUpdates su d) = mergeServerUpdates su d"
proof (cases "mergeKind ''barcode'' (suProducts su) (deletedProducts su) (sProducts d)")
  case None
  then have "mergeServerUpdates su d = d"
    by (simp add: mergeServerUpdates_kinds)
  then show ?thesis by simp
next
  case ps: (Some ps)
  show ?thesis
  proof (cases "mergeKind ''name'' (suCategories su) (deletedCategories su) (sCategories d)")
    case None
    then have "mergeServerUpdates su d = d"
      using ps by (simp add: mergeServerUpdates_kinds)
    then show ?thesis by simp
  next
    case cs: (Some cs)
    have p2: "mergeKind ''barcode'' (suProducts su) (deletedProducts su) ps = Some ps"
      using mergeKind_idem[OF assms(1,3) ps] .
    have c2: "mergeKind ''name'' (suCategories su) (deletedCategories su) cs = Some cs"
      using mergeKind_idem[OF assms(2,4) cs] .
    show ?thesis
      using ps cs p2 c2 by (simp add: mergeServerUpdates_kinds)
  qed
qed


lemmas merge_defs = mergeServerUpdates_def mergeRecord_def deleteMarked_def serverIdMap_def
  lookupServerId_def assignServer_def withoutId_def remoteIsNewer_def putChecked_def addChecked_def
  violates_def indexKey_def truthy_def Date_new_def date_gt_def Map_new_def putAt_def
  deleteFromDB_def Let_def

lemmas order_defs = store_ok_def delta_ok_def index_unique_def unique_on_def remoteIdentity_def
  indexKey_def truthy_def

text \<open>The updates \<open>delta_example\<close> on \<open>synced_example\<close>: the product is overwritten under its
  key, the new product gets the key 2, the fourth category goes, and a second merge
  changes nothing.\<close>

theorem merge_idempotent_witness:
  "store_ok ''barcode'' (sProducts synced_example) \<and>
   store_ok ''name'' (sCategories synced_example) \<and>
   delta_ok (suProducts delta_example) (deletedProducts delta_example) \<and>
   delta_ok (suCategories delta_example) (deletedCategories delta_example) \<and>
   mergeServerUpdates delta_example (mergeServerUpdates delta_example synced_example) =
     mergeServerUpdates delta_example synced_example \<and>
   map fst (recs (sProducts (mergeServerUpdates delta_example synced_example))) = [1, 2] \<and>
   map fst (recs (sCategories (mergeServerUpdates delta_example synced_example))) = [1, 2, 3]"
proof -
  have h1: "store_ok ''barcode'' (sProducts synced_example)"
    by (simp add: order_defs synced_example_def kopi_synced_def sync_examples)
  have h2: "store_ok ''name'' (sCategories synced_example)"
    by (simp add: order_defs synced_example_def kopi_synced_def sync_examples)
  have h3: "delta_ok (suProducts delta_example) (deletedProducts delta_example)"
    by (simp add: order_defs delta_example_def kopi_server_def roti_server_def)
  have h4: "delta_ok (suCategories delta_example) (deletedCategories delta_example)"
    by (simp add: order_defs delta_example_def kopi_server_def roti_server_def)
  have h5: "map fst (recs (sProducts (mergeServerUpdates delta_example synced_example))) = [1, 2] \<and>
            map fst (recs (sCategories (mergeServerUpdates delta_example synced_example))) = [1, 2, 3]"
    by (simp add: merge_defs delta_example_def kopi_server_def roti_server_def synced_example_def kopi_synced_def sync_examples)
  show ?thesis
    using merge_idempotent[OF h1 h2 h3 h4] h1 h2 h3 h4 h5 by simp
qed

text \<open>
  Without the conditions the merge is not idempotent. When the server sends a product
  that the local store does not have and also marks its \<^verbatim>\<open>serverId\<close> as deleted, the first
  merge inserts the product (the map of the local records, built before the loops, does
  not hold it, so the deletion marker finds nothing), and the second merge deletes it.
\<close>

theorem merge_idempotent_counterexample:
  "store_ok ''barcode'' (sProducts sync_example) \<and>
   store_ok ''name'' (sCategories sync_example) \<and>
   map fst (recs (sProducts (mergeServerUpdates sent_and_deleted sync_example))) = [1, 2] \<and>
   map fst (recs (sProducts (mergeServerUpdates sent_and_deleted
                               (mergeServerUpdates sent_and_deleted sync_example)))) = [1] \<and>
   mergeServerUpdates sent_and_deleted (mergeServerUpdates sent_and_deleted sync_example) \<noteq>
     mergeServerUpdates sent_and_deleted sync_example"
proof -
  have h1: "store_ok ''barcode'' (sProducts sync_example)"
    by (simp add: order_defs sync_examples)
  have h2: "store_ok ''name'' (sCategories sync_example)"
    by (simp add: order_defs sync_examples)
  have once: "map fst (recs (sProducts (mergeServerUpdates sent_and_deleted sync_example))) = [1, 2]"
    by (simp add: merge_defs sent_and_deleted_def sync_examples)
  have twice: "map fst (recs (sProducts (mergeServerUpdates sent_and_deleted
                 (mergeServerUpdates sent_and_deleted sync_example)))) = [1]"
    by (simp add: merge_defs sent_and_deleted_def sync_examples)
  have "mergeServerUpdates sent_and_deleted (mergeServerUpdates sent_and_deleted sync_example) \<noteq>
          mergeServerUpdates sent_and_deleted sync_example"
  proof
    assume "mergeServerUpdates sent_and_deleted (mergeServerUpdates sent_and_deleted sync_example) =
              mergeServerUpdates sent_and_deleted sync_example"
    then have "map fst (recs (sProducts (mergeServerUpdates sent_and_deleted
                 (mergeServerUpdates sent_and_deleted sync_example)))) =
               map fst (recs (sProducts (mergeServerUpdates sent_and_deleted sync_example)))"
      by simp
    then show False
      unfolding once twice by simp
  qed
  then show ?thesis
    using h1 h2 once twice by simp
qed

subsection \<open>The rule for one record\<close>

lemma assignServer_apply:
  "assignServer lp sp f =
     (if f = ''id'' then None else case sp f of Some x \<Rightarrow> Some x | None \<Rightarrow> lp f)"
  by (simp add: assignServer_def map_add_def split: option.splits)

lemma mergeKind_aborted:
  assumes "foldl (mergeRecord kp) (serverIdMap st, Some st) seen = (m, Some st')"
      and "snd (mergeRecord kp (m, Some st') sp) = None"
  shows "mergeKind kp (seen @ sp # rest) dels st = None"
proof -
  obtain m1 where s: "mergeRecord kp (m, Some st') sp = (m1, None)"
    using assms(2) by (cases "mergeRecord kp (m, Some st') sp") simp
  obtain m2 where "foldl (mergeRecord kp) (m1, None) rest = (m2, None)"
    using foldl_mergeRecord_aborted[of kp m1 rest]
    by (cases "foldl (mergeRecord kp) (m1, None) rest") simp
  then show ?thesis
    using assms(1) s by (simp add: mergeKind_def foldl_deleteMarked_aborted)
qed

text \<open>
  Claim C5, with the unique index of the store. Let the local store be in order, and let
  the server's records that the loop has gone through (\<open>seen\<close>) and the incoming record \<open>sp\<close>
  all have a \<^verbatim>\<open>serverId\<close>, no two the same. Let \<open>st'\<close> be the store of the running
  transaction when the loop reaches \<open>sp\<close>.
  \<^item> When a record \<open>(k, localObj)\<close> of \<open>st'\<close> has the remote identity of \<open>sp\<close>, and the
    server's \<^verbatim>\<open>updatedAt\<close> is later than the local one or the local record has none, the
    record under the same key \<open>k\<close> becomes \<open>assignServer localObj sp\<close> (by
    \<open>assignServer_apply\<close>: every property of the server's record, and the local
    properties the server's record lacks) and no other key changes (\<open>getFromDB_putAt\<close>);
    otherwise the store stays as it is.
  \<^item> When no record of \<open>st'\<close> has that remote identity, the incoming record is stored under
    the next key, which held nothing.
  \<^item> Both writes are subject to the unique index (\<^verbatim>\<open>barcode\<close> of products, \<^verbatim>\<open>name\<close> of
    categories): when the written record would share its indexed property with a record
    under another key, the request fails, the transaction is aborted, and the merge of
    that store yields nothing, so that \<open>mergeServerUpdates\<close> leaves the database as it was.
\<close>

theorem mergeRecord_rule:
  assumes ok: "store_ok kp st"
      and tr: "list_all (\<lambda>p. truthy (p ''serverId'')) (seen @ [sp])"
      and dis: "distinct (map (\<lambda>p. p ''serverId'') (seen @ [sp]))"
      and run: "foldl (mergeRecord kp) (serverIdMap st, Some st) seen = (m, Some st')"
  shows "snd (mergeRecord kp (m, Some st') sp) =
           (case find (\<lambda>kv. remoteIdentity (snd kv) = sp ''serverId'') (recs st') of
              Some (k, localObj) \<Rightarrow>
                if remoteIsNewer localObj sp
                then (if violates kp k (assignServer localObj sp) st' then None
                      else Some (putAt k (assignServer localObj sp) st'))
                else Some st'
            | None \<Rightarrow>
                if violates kp (nextKey st') (withoutId sp) st' then None
                else Some (putAt (nextKey st') (withoutId sp) st')) \<and>
         getFromDB st' (nextKey st') = None \<and>
         (snd (mergeRecord kp (m, Some st') sp) = None \<longrightarrow>
            (\<forall>rest dels. mergeKind kp (seen @ sp # rest) dels st = None))"
proof -
  have trs: "list_all (\<lambda>p. truthy (p ''serverId'')) seen" and t: "truthy (sp ''serverId'')"
    using tr by simp_all
  have diss: "distinct (map (\<lambda>p. p ''serverId'') ([] @ seen))"
    and new: "sp ''serverId'' \<notin> (\<lambda>p. p ''serverId'') ` set seen"
    using dis by simp_all
  have inv: "merge_inv kp seen m st'"
    using foldl_mergeRecord_inv[where seen = "[]" and todo = seen and m = "serverIdMap st"
        and st = st and m' = m and st' = st' and kp = kp]
      merge_inv_start[OF ok] trs diss run by simp
  have ok': "store_ok kp st'"
    and J2: "\<And>v k p. m v = Some (k, p) \<Longrightarrow> (k, p) \<in> set (recs st') \<and> remoteIdentity p = Some v"
    and J3: "\<And>kv v. kv \<in> set (recs st') \<Longrightarrow> remoteIdentity (snd kv) = Some v \<Longrightarrow>
               m v = Some kv \<or> Some v \<in> (\<lambda>p. p ''serverId'') ` set seen"
    using inv unfolding merge_inv_def by blast+
  obtain v where v: "sp ''serverId'' = Some v" using t truthy_Some by blast
  have a: "snd (mergeRecord kp (m, Some st') sp) =
           (case find (\<lambda>kv. remoteIdentity (snd kv) = sp ''serverId'') (recs st') of
              Some (k, localObj) \<Rightarrow>
                if remoteIsNewer localObj sp
                then (if violates kp k (assignServer localObj sp) st' then None
                      else Some (putAt k (assignServer localObj sp) st'))
                else Some st'
            | None \<Rightarrow>
                if violates kp (nextKey st') (withoutId sp) st' then None
                else Some (putAt (nextKey st') (withoutId sp) st'))"
  proof (cases "find (\<lambda>kv. remoteIdentity (snd kv) = sp ''serverId'') (recs st')")
    case None
    then have no: "\<And>kv. kv \<in> set (recs st') \<Longrightarrow> remoteIdentity (snd kv) \<noteq> Some v"
      by (auto simp: find_None_iff v)
    have "m v = None"
    proof (cases "m v")
      case None
      then show ?thesis .
    next
      case (Some kv)
      obtain k p where "kv = (k, p)" by (cases kv)
      then have "(k, p) \<in> set (recs st') \<and> remoteIdentity p = Some v"
        using J2[of v k p] Some by simp
      then show ?thesis using no[of "(k, p)"] by simp
    qed
    then show ?thesis
      using None by (simp add: mergeRecord_def lookupServerId_def v addChecked_def putChecked_def)
  next
    case (Some kv)
    obtain k lp where klp: "kv = (k, lp)" by (cases kv)
    have mem: "kv \<in> set (recs st')" and idt: "remoteIdentity (snd kv) = Some v"
      using Some by (auto simp: find_Some_iff v nth_mem)
    have "m v = Some kv"
      using J3[OF mem idt] new v by auto
    then show ?thesis
      using Some klp by (simp add: mergeRecord_def lookupServerId_def v putChecked_def)
  qed
  have b: "getFromDB st' (nextKey st') = None"
  proof -
    have "\<forall>kv \<in> set (recs st'). fst kv < nextKey st'"
      using ok' by (simp add: store_ok_def list_all_iff)
    then have "nextKey st' \<notin> fst ` set (recs st')" by auto
    then show ?thesis
      by (simp add: getFromDB_def map_of_eq_None_iff)
  qed
  have c: "snd (mergeRecord kp (m, Some st') sp) = None \<longrightarrow>
            (\<forall>rest dels. mergeKind kp (seen @ sp # rest) dels st = None)"
    using mergeKind_aborted[OF run] by blast
  show ?thesis using a b c by blast
qed

text \<open>The second record of \<open>delta_example\<close> after the first: the first overwrote the
  product under the key 1; the second matches no local record and is inserted under the
  key 2.\<close>

theorem mergeRecord_rule_witness:
  "store_ok ''barcode'' (sProducts synced_example) \<and>
   list_all (\<lambda>p. truthy (p ''serverId'')) ([kopi_server] @ [roti_server]) \<and>
   distinct (map (\<lambda>p. p ''serverId'') ([kopi_server] @ [roti_server])) \<and>
   foldl (mergeRecord ''barcode'')
     (serverIdMap (sProducts synced_example), Some (sProducts synced_example)) [kopi_server] =
     ((serverIdMap (sProducts synced_example))
        (JStr ''server_1'' \<mapsto> (1, assignServer kopi_synced kopi_server)),
      Some (putAt 1 (assignServer kopi_synced kopi_server) (sProducts synced_example))) \<and>
   snd (mergeRecord ''barcode''
          ((serverIdMap (sProducts synced_example))
             (JStr ''server_1'' \<mapsto> (1, assignServer kopi_synced kopi_server)),
           Some (putAt 1 (assignServer kopi_synced kopi_server) (sProducts synced_example)))
          roti_server) =
     Some (putAt 2 (withoutId roti_server)
            (putAt 1 (assignServer kopi_synced kopi_server) (sProducts synced_example))) \<and>
   getFromDB (putAt 1 (assignServer kopi_synced kopi_server) (sProducts synced_example)) 2 = None"
proof -
  have h1: "store_ok ''barcode'' (sProducts synced_example)"
    by (simp add: order_defs synced_example_def kopi_synced_def sync_examples)
  have h2: "list_all (\<lambda>p. truthy (p ''serverId'')) ([kopi_server] @ [roti_server])"
    by (simp add: truthy_def kopi_server_def roti_server_def)
  have h3: "distinct (map (\<lambda>p. p ''serverId'') ([kopi_server] @ [roti_server]))"
    by (simp add: kopi_server_def roti_server_def)
  have h4: "foldl (mergeRecord ''barcode'')
     (serverIdMap (sProducts synced_example), Some (sProducts synced_example)) [kopi_server] =
     ((serverIdMap (sProducts synced_example))
        (JStr ''server_1'' \<mapsto> (1, assignServer kopi_synced kopi_server)),
      Some (putAt 1 (assignServer kopi_synced kopi_server) (sProducts synced_example)))"
    by (simp add: merge_defs synced_example_def kopi_synced_def kopi_server_def sync_examples)
  have h5: "find (\<lambda>kv. remoteIdentity (snd kv) = roti_server ''serverId'')
              (recs (putAt 1 (assignServer kopi_synced kopi_server) (sProducts synced_example))) = None"
    by (simp add: merge_defs remoteIdentity_def synced_example_def kopi_synced_def kopi_server_def
        roti_server_def sync_examples)
  have h6: "\<not> violates ''barcode'' 2 (withoutId roti_server)
              (putAt 1 (assignServer kopi_synced kopi_server) (sProducts synced_example))"
    by (simp add: merge_defs synced_example_def kopi_synced_def kopi_server_def
        roti_server_def sync_examples)
  have h7: "nextKey (putAt 1 (assignServer kopi_synced kopi_server) (sProducts synced_example)) = 2"
    by (simp add: putAt_def synced_example_def)
  note r = mergeRecord_rule[OF h1 h2 h3 h4]
  have r1: "snd (mergeRecord ''barcode''
          ((serverIdMap (sProducts synced_example))
             (JStr ''server_1'' \<mapsto> (1, assignServer kopi_synced kopi_server)),
           Some (putAt 1 (assignServer kopi_synced kopi_server) (sProducts synced_example)))
          roti_server) =
     Some (putAt 2 (withoutId roti_server)
            (putAt 1 (assignServer kopi_synced kopi_server) (sProducts synced_example)))"
    using r[THEN conjunct1] unfolding h5 h7 option.case using h6 by (simp only: if_False)
  have r2: "getFromDB (putAt 1 (assignServer kopi_synced kopi_server) (sProducts synced_example)) 2 = None"
    using r[THEN conjunct2, THEN conjunct1] unfolding h7 .
  show ?thesis
    by (rule conjI[OF h1 conjI[OF h2 conjI[OF h3 conjI[OF h4 conjI[OF r1 r2]]]]])
qed

text \<open>
  The claim without the unique index does not hold. The category that the mock server of
  the source sends has the name of one of the three categories every database starts
  with, which has no \<^verbatim>\<open>serverId\<close>: no local record has the remote identity of the incoming
  record, the \<^verbatim>\<open>put\<close> of the new record fails on the unique index on \<^verbatim>\<open>name\<close>, and the
  merge changes nothing.
\<close>

theorem mergeRecord_rule_counterexample:
  "suCategories mockServerData =
     [[''serverId'' \<mapsto> JStr ''server_cat_201'', ''name'' \<mapsto> JStr ''Lainnya'',
       ''updatedAt'' \<mapsto> JTime 50]] \<and>
   find (\<lambda>kv. remoteIdentity (snd kv) = Some (JStr ''server_cat_201''))
     (recs (sCategories sync_example)) = None \<and>
   snd (mergeRecord ''name'' (serverIdMap (sCategories sync_example), Some (sCategories sync_example))
          (hd (suCategories mockServerData))) = None \<and>
   sCategories (mergeServerUpdates mockServerData sync_example) = sCategories sync_example \<and>
   map fst (recs (sCategories (mergeServerUpdates mockServerData sync_example))) = [1, 2, 3]"
  by (simp add: merge_defs remoteIdentity_def mockServerData_def sync_examples)


section \<open>The upgrade to version 7\<close>

lemmas upgrade_defs = upgrade_def committed_def onupgradeneeded_def andThen_def whenOlder_def
  block2_def block3_def block4_def block5_def block6_def block7_def createIfAbsent_def
  gt_zero_def putAt_def empty_store_def Let_def

text \<open>The upgrade of a new database creates every store and the three categories every
  database starts with.\<close>

lemma upgrade_new_database:
  "map_option uCategories (upgrade positive now 0 new_database) = Some (Some default_categories)"
  by (simp add: upgrade_defs new_database_def populateCategories_def addCategory_def Set_add_def
      getAllFromDB_def addChecked_def putChecked_def violates_def indexKey_def
      index_unique_def unique_on_def default_categories_def)

text \<open>
  Claim C8. Let a database of version 6 have no store \<^verbatim>\<open>fees\<close> and a setting with the key
  \<^verbatim>\<open>storePpn\<close> and the value 10. Its upgrade to version 7 commits, and differs from the
  database before in two places: there is a store \<^verbatim>\<open>fees\<close> that holds exactly one record,
  under the first generated key, with the name \<^verbatim>\<open>PPN\<close>, the type \<^verbatim>\<open>percentage\<close>, the value
  10, \<^verbatim>\<open>isDefault\<close> and \<^verbatim>\<open>isTax\<close> true and the time of the upgrade as \<^verbatim>\<open>createdAt\<close>; and the
  settings no longer hold \<^verbatim>\<open>storePpn\<close>. Both changes are made in the one \<^verbatim>\<open>versionchange\<close>
  transaction that \<open>upgrade\<close> models.
\<close>

theorem migration_v7:
  assumes "uFees d = None" and "uSettings d = Some settingsStore"
      and "settingsStore ''storePpn'' = Some ppnSetting"
      and "ppnSetting ''value'' = Some (JNum 10)"
  shows "upgrade positive now 6 d =
           Some (d\<lparr>uFees := Some \<lparr>recs = [(1, ppnFee now ppnSetting)], nextKey = 2\<rparr>,
                   uSettings := Some (settingsStore(''storePpn'' := None))\<rparr>) \<and>
         ppnFee now ppnSetting =
           [''name'' \<mapsto> JStr ''PPN'', ''type'' \<mapsto> JStr ''percentage'', ''value'' \<mapsto> JNum 10,
            ''isDefault'' \<mapsto> JBool True, ''isTax'' \<mapsto> JBool True, ''createdAt'' \<mapsto> JTime now]"
proof -
  have a: "upgrade positive now 6 d =
           Some (d\<lparr>uFees := Some \<lparr>recs = [(1, ppnFee now ppnSetting)], nextKey = 2\<rparr>,
                   uSettings := Some (settingsStore(''storePpn'' := None))\<rparr>)"
    using assms by (simp add: upgrade_defs)
  have b: "ppnFee now ppnSetting =
           [''name'' \<mapsto> JStr ''PPN'', ''type'' \<mapsto> JStr ''percentage'', ''value'' \<mapsto> JNum 10,
            ''isDefault'' \<mapsto> JBool True, ''isTax'' \<mapsto> JBool True, ''createdAt'' \<mapsto> JTime now]"
    using assms(4) by (auto simp: ppnFee_def fun_eq_iff)
  show ?thesis using a b by (rule conjI)
qed

text \<open>The upgrade of \<open>v6_example\<close> at the time 1000.\<close>

theorem migration_v7_witness:
  "uFees v6_example = None \<and>
   uSettings v6_example = Some [''storeName'' \<mapsto> [''value'' \<mapsto> JStr ''Toko''],
                                ''storePpn'' \<mapsto> [''value'' \<mapsto> JNum 10]] \<and>
   [''storeName'' \<mapsto> [''value'' \<mapsto> JStr ''Toko''], ''storePpn'' \<mapsto> [''value'' \<mapsto> JNum 10]]
     ''storePpn'' = Some [''value'' \<mapsto> JNum 10] \<and>
   [''value'' \<mapsto> JNum 10] ''value'' = Some (JNum 10) \<and>
   upgrade (\<lambda>s. False) 1000 6 v6_example =
     Some (v6_example
             \<lparr>uFees := Some \<lparr>recs = [(1, ppnFee 1000 [''value'' \<mapsto> JNum 10])], nextKey = 2\<rparr>,
              uSettings := Some ([''storeName'' \<mapsto> [''value'' \<mapsto> JStr ''Toko''],
                                  ''storePpn'' \<mapsto> [''value'' \<mapsto> JNum 10]](''storePpn'' := None))\<rparr>) \<and>
   ppnFee 1000 [''value'' \<mapsto> JNum 10] =
     [''name'' \<mapsto> JStr ''PPN'', ''type'' \<mapsto> JStr ''percentage'', ''value'' \<mapsto> JNum 10,
      ''isDefault'' \<mapsto> JBool True, ''isTax'' \<mapsto> JBool True, ''createdAt'' \<mapsto> JTime 1000]"
proof -
  let ?settings = "[''storeName'' \<mapsto> [''value'' \<mapsto> JStr ''Toko''],
                    ''storePpn'' \<mapsto> [''value'' \<mapsto> JNum 10]] :: string \<rightharpoonup> obj"
  let ?ppn = "[''value'' \<mapsto> JNum 10] :: obj"
  have h1: "uFees v6_example = None"
    by (simp add: v6_example_def)
  have h2: "uSettings v6_example = Some ?settings"
    by (simp add: v6_example_def)
  have h3: "?settings ''storePpn'' = Some ?ppn"
    by simp
  have h4: "?ppn ''value'' = Some (JNum 10)"
    by simp
  note r = migration_v7[OF h1 h2 h3 h4, of "\<lambda>s. False" 1000]
  show ?thesis
    by (rule conjI[OF h1 conjI[OF h2 conjI[OF h3 conjI[OF h4 r]]]])
qed

end
